theory Spec2Isabelle
  imports Complex_Main "HOL-Library.Multiset"
begin

section \<open>Data model (types.ts)\<close>

text \<open>
  A \<open>Tile\<close> is a JavaScript object with five fields. The field \<open>id\<close> of the source is
  called \<open>tileId\<close> here, because \<open>id\<close> is the identity function of HOL. All numbers
  that occur in the puzzle engine are integers (indices, grid sizes), so a JavaScript
  \<open>number\<close> is an \<open>int\<close>.

  A board is a JavaScript array of tile objects; it is modelled by the list of the
  objects' values. The tile objects of a board are pairwise distinct objects
  (\<open>generateSolvedState\<close> creates one fresh object per cell and every later operation only
  permutes them), so the in-place assignment \<open>newTiles[i].currentPos = i\<close> changes the
  cell \<open>i\<close> of the new array and no other cell of it.
\<close>

record tile =
  tileId :: int
  currentPos :: int
  correctPos :: int
  imageUrl :: string
  isEmpty :: bool

datatype GameState = IDLE | GENERATING | PLAYING | WON

text \<open>The numeric enum \<open>Difficulty\<close>.\<close>

definition EASY :: int where "EASY = 3"
definition MEDIUM :: int where "MEDIUM = 4"
definition HARD :: int where "HARD = 5"

text \<open>
  What the source can throw: \<open>TypeError\<close> when a property of \<open>undefined\<close> is written
  (an array read outside the array gives \<open>undefined\<close>), the rejection of \<open>loadImage\<close>,
  and the \<open>Error\<close> of \<open>sliceImage\<close> when no 2d context is available.
\<close>

datatype error = TypeError | ImageLoadError | NoCanvasContext

section \<open>JavaScript primitives\<close>

text \<open>
  \<open>a % b\<close> on integers with \<open>b \<noteq> 0\<close>: the remainder of the truncated division, which
  has the sign of \<open>a\<close>. \<open>Math.floor(a / b)\<close> on integers with \<open>b \<noteq> 0\<close> is the floored
  quotient, which is \<open>a div b\<close> on \<open>int\<close>. A grid size of 0 (where JavaScript computes
  with \<open>NaN\<close> and \<open>Infinity\<close>) is outside this model.
\<close>

definition js_rem :: "int \<Rightarrow> int \<Rightarrow> int" where
  "js_rem a b = sgn a * (\<bar>a\<bar> mod \<bar>b\<bar>)"

text \<open>\<open>xs[i]\<close>: \<open>None\<close> stands for \<open>undefined\<close>.\<close>

definition arr_get :: "'a list \<Rightarrow> int \<Rightarrow> 'a option" where
  "arr_get xs i = (if 0 \<le> i \<and> i < int (length xs) then Some (xs ! nat i) else None)"

text \<open>\<open>Array.prototype.findIndex\<close>: the first index whose element satisfies \<open>P\<close>, or -1.\<close>

fun findIndex :: "('a \<Rightarrow> bool) \<Rightarrow> 'a list \<Rightarrow> int" where
  "findIndex P [] = - 1"
| "findIndex P (x # xs) =
     (if P x then 0 else (let r = findIndex P xs in if r < 0 then - 1 else r + 1))"

section \<open>puzzleUtils.ts\<close>

subsection \<open>generateSolvedState\<close>

definition generateSolvedState :: "string list \<Rightarrow> int \<Rightarrow> tile list" where
  "generateSolvedState imagePieces gridSize =
     map (\<lambda>(index, url).
            \<lparr>tileId = int index, currentPos = int index, correctPos = int index,
             imageUrl = url, isEmpty = (int index = gridSize * gridSize - 1)\<rparr>)
         (List.enumerate 0 imagePieces)"

subsection \<open>isSolved\<close>

definition isSolved :: "tile list \<Rightarrow> bool" where
  "isSolved ts = list_all (\<lambda>t. currentPos t = correctPos t) ts"

subsection \<open>The swap shared by shuffleTiles and handleTileClick\<close>

text \<open>
  Both functions copy the array and then run the same three statements,
  \<^verbatim>\<open>[newTiles[a], newTiles[b]] = [newTiles[b], newTiles[a]];
  newTiles[a].currentPos = a;
  newTiles[b].currentPos = b;\<close>
  with \<open>(a, b) = (emptyIdx, targetIdx)\<close> in \<open>shuffleTiles\<close> and \<open>(a, b) = (index, emptyIndex)\<close>
  in \<open>handleTileClick\<close>. After the destructuring assignment the cell \<open>a\<close> holds the old
  \<open>newTiles[b]\<close> and the cell \<open>b\<close> the old \<open>newTiles[a]\<close>. When \<open>a\<close> or \<open>b\<close> is not an index
  of the array, one of the two reads gave \<open>undefined\<close>, and the assignment to its
  \<open>currentPos\<close> throws a \<open>TypeError\<close>. The model returns the error alone: when only
  \<open>a\<close> is outside the array, the first of the two assignments has already written
  \<open>currentPos\<close> of the tile object that was at \<open>b\<close> before the second one throws, and
  this write to an object shared with the caller's array is not part of the result.
\<close>

definition swapTiles :: "tile list \<Rightarrow> int \<Rightarrow> int \<Rightarrow> error + tile list" where
  "swapTiles newTiles a b =
     (case (arr_get newTiles a, arr_get newTiles b) of
        (Some x, Some y) \<Rightarrow>
          Inr (newTiles[nat a := y\<lparr>currentPos := a\<rparr>, nat b := x\<lparr>currentPos := b\<rparr>])
      | _ \<Rightarrow> Inl TypeError)"

subsection \<open>shuffleTiles\<close>

text \<open>
  The candidate list of one iteration: up, down, left, right of the empty cell, each
  pushed under the guard of the source.
\<close>

definition validMoves :: "int \<Rightarrow> int \<Rightarrow> int list" where
  "validMoves gridSize emptyIdx =
     (let row = emptyIdx div gridSize;
          col = js_rem emptyIdx gridSize
      in (if row > 0 then [emptyIdx - gridSize] else [])
         @ (if row < gridSize - 1 then [emptyIdx + gridSize] else [])
         @ (if col > 0 then [emptyIdx - 1] else [])
         @ (if col < gridSize - 1 then [emptyIdx + 1] else []))"

definition filteredMoves :: "int \<Rightarrow> int \<Rightarrow> int \<Rightarrow> int list" where
  "filteredMoves gridSize emptyIdx previousIdx =
     filter (\<lambda>idx. idx \<noteq> previousIdx) (validMoves gridSize emptyIdx)"

text \<open>
  \<open>Math.floor(Math.random() * len)\<close>, where \<open>r\<close> is the value that \<open>Math.random()\<close>
  returned: a number with \<open>0 \<le> r < 1\<close>, taken as a real number.
\<close>

definition randomIndex :: "real \<Rightarrow> nat \<Rightarrow> int" where
  "randomIndex r len = \<lfloor>r * real len\<rfloor>"

text \<open>
  \<open>targetIdx\<close> of one iteration; \<open>None\<close> is \<open>undefined\<close> (a read outside the list).
\<close>

definition chooseTarget :: "int \<Rightarrow> int \<Rightarrow> int \<Rightarrow> real \<Rightarrow> int option" where
  "chooseTarget gridSize emptyIdx previousIdx r =
     (let vm = validMoves gridSize emptyIdx;
          fm = filteredMoves gridSize emptyIdx previousIdx
      in if length fm > 0 then arr_get fm (randomIndex r (length fm))
         else arr_get vm (randomIndex r (length vm)))"

text \<open>
  The body of the loop on the loop state \<open>(tiles, emptyIdx, previousIdx)\<close>. With
  \<open>targetIdx\<close> undefined the swap reads \<open>newTiles[undefined]\<close>, which is \<open>undefined\<close>, and
  the assignment to \<open>newTiles[emptyIdx].currentPos\<close> throws.
\<close>

definition shuffleStep ::
  "int \<Rightarrow> real \<Rightarrow> tile list \<times> int \<times> int \<Rightarrow> error + tile list \<times> int \<times> int" where
  "shuffleStep gridSize r st =
     (case st of (ts, emptyIdx, previousIdx) \<Rightarrow>
        (case chooseTarget gridSize emptyIdx previousIdx r of
           None \<Rightarrow> Inl TypeError
         | Some targetIdx \<Rightarrow>
             (case swapTiles ts emptyIdx targetIdx of
                Inl e \<Rightarrow> Inl e
              | Inr newTiles \<Rightarrow> Inr (newTiles, targetIdx, emptyIdx))))"

text \<open>
  \<open>for (let i = 0; i < moves; i++)\<close>; \<open>random i\<close> is the value of the call of
  \<open>Math.random()\<close> in iteration \<open>i\<close> (each iteration makes exactly one call).
\<close>

function shuffleLoop ::
  "int \<Rightarrow> (nat \<Rightarrow> real) \<Rightarrow> nat \<Rightarrow> nat \<Rightarrow> tile list \<times> int \<times> int
     \<Rightarrow> error + tile list \<times> int \<times> int" where
  "shuffleLoop gridSize random moves i st =
     (if i < moves
      then (case shuffleStep gridSize (random i) st of
              Inl e \<Rightarrow> Inl e
            | Inr st' \<Rightarrow> shuffleLoop gridSize random moves (Suc i) st')
      else Inr st)"
  by pat_completeness auto
termination
  by (relation "measure (\<lambda>(gridSize, random, moves, i, st). moves - i)") auto

declare shuffleLoop.simps [simp del]

definition shuffleTiles ::
  "tile list \<Rightarrow> int \<Rightarrow> nat \<Rightarrow> (nat \<Rightarrow> real) \<Rightarrow> error + tile list" where
  "shuffleTiles initialTiles gridSize moves random =
     (case shuffleLoop gridSize random moves 0
             (initialTiles, findIndex isEmpty initialTiles, - 1) of
        Inl e \<Rightarrow> Inl e
      | Inr (ts, emptyIdx, previousIdx) \<Rightarrow> Inr ts)"

subsection \<open>sliceImage\<close>

text \<open>
  \<open>width\<close> and \<open>height\<close> of an \<open>HTMLImageElement\<close> are unsigned integers. A tile image is
  the data URL of the canvas after one \<open>drawImage\<close> call; it is modelled by the arguments
  of that call: the source rectangle (\<open>sx\<close>, \<open>sy\<close>, \<open>sWidth\<close>, \<open>sHeight\<close>) and the size of
  the destination rectangle at the origin of the canvas (\<open>dWidth\<close>, \<open>dHeight\<close>), the
  canvas itself having side \<open>targetTileSize = dWidth\<close>. The offsets are halves of
  integers, hence real numbers. \<open>gridSize\<close> is a natural number; for \<open>gridSize = 0\<close> the
  loops do not run and \<open>tileSize\<close> is not used.

  \<open>loadImage\<close> is the asynchronous loader (its promise resolves to the image or
  rejects), and \<open>hasContext\<close> says whether \<open>canvas.getContext('2d')\<close> is non-null.
\<close>

record image =
  width :: nat
  height :: nat

record piece =
  sx :: real
  sy :: real
  sWidth :: nat
  sHeight :: nat
  dWidth :: nat
  dHeight :: nat

definition sliceImage ::
  "(string \<Rightarrow> error + image) \<Rightarrow> bool \<Rightarrow> string \<Rightarrow> nat \<Rightarrow> error + piece list" where
  "sliceImage loadImage hasContext imageSrc gridSize =
     (case loadImage imageSrc of
        Inl e \<Rightarrow> Inl e
      | Inr img \<Rightarrow>
          if \<not> hasContext then Inl NoCanvasContext
          else
            let size' = min (width img) (height img);
                offsetX = (real (width img) - real size') / 2;
                offsetY = (real (height img) - real size') / 2;
                tileSize = size' div gridSize;
                targetTileSize = min 512 tileSize
            in Inr (concat (map (\<lambda>row. map (\<lambda>col.
                      \<lparr>sx = offsetX + real col * real tileSize,
                       sy = offsetY + real row * real tileSize,
                       sWidth = tileSize, sHeight = tileSize,
                       dWidth = targetTileSize, dHeight = targetTileSize\<rparr>)
                    [0..<gridSize]) [0..<gridSize])))"

section \<open>App.tsx\<close>

subsection \<open>handleTileClick\<close>

text \<open>The adjacency test of \<open>handleTileClick\<close>.\<close>

definition isAdjacent :: "int \<Rightarrow> int \<Rightarrow> int \<Rightarrow> bool" where
  "isAdjacent gridSize index emptyIndex =
     (let row = index div gridSize;
          col = js_rem index gridSize;
          emptyRow = emptyIndex div gridSize;
          emptyCol = js_rem emptyIndex gridSize
      in (\<bar>row - emptyRow\<bar> = 1 \<and> col = emptyCol) \<or> (\<bar>col - emptyCol\<bar> = 1 \<and> row = emptyRow))"

text \<open>
  The board computation of \<open>handleTileClick\<close> (the spec's \<open>attemptMove\<close>), from the
  \<open>findIndex\<close> to the position update: \<open>Inr (Some newTiles)\<close> when the move is accepted,
  \<open>Inr None\<close> when the click is ignored, \<open>Inl TypeError\<close> when the swap throws.
\<close>

definition attemptMove :: "tile list \<Rightarrow> int \<Rightarrow> int \<Rightarrow> error + tile list option" where
  "attemptMove ts gridSize index =
     (let emptyIndex = findIndex isEmpty ts
      in if isAdjacent gridSize index emptyIndex
         then (case swapTiles ts index emptyIndex of
                 Inl e \<Rightarrow> Inl e
               | Inr newTiles \<Rightarrow> Inr (Some newTiles))
         else Inr None)"

text \<open>
  The component state that \<open>handleTileClick\<close> reads and writes, and the handler itself:
  nothing happens outside \<open>PLAYING\<close>; an accepted move replaces the tiles, counts one
  move and ends the game when the new board is solved. After an exception no setter has
  run, so the component keeps the state it had.
\<close>

record app =
  difficulty_st :: int
  tiles_st :: "tile list"
  gameState_st :: GameState
  moves_st :: nat

definition handleTileClick :: "app \<Rightarrow> int \<Rightarrow> error + app" where
  "handleTileClick s index =
     (if gameState_st s \<noteq> PLAYING then Inr s
      else (case attemptMove (tiles_st s) (difficulty_st s) index of
              Inl e \<Rightarrow> Inl e
            | Inr None \<Rightarrow> Inr s
            | Inr (Some newTiles) \<Rightarrow>
                Inr (s\<lparr>tiles_st := newTiles, moves_st := moves_st s + 1,
                       gameState_st := (if isSolved newTiles then WON else gameState_st s)\<rparr>)))"

section \<open>Notions used to state the properties\<close>

text \<open>
  A board is well-formed for an \<open>n \<times> n\<close> grid with its empty cell at index \<open>e\<close> when it
  has \<open>n\<^sup>2\<close> tiles, the tile at \<open>e\<close> is the only empty one, and every tile records its own
  index in \<open>currentPos\<close>.
\<close>

definition wellFormed :: "nat \<Rightarrow> tile list \<Rightarrow> nat \<Rightarrow> bool" where
  "wellFormed n b e \<longleftrightarrow>
     length b = n * n \<and> e < n * n
     \<and> (\<forall>p < n * n. isEmpty (b ! p) \<longleftrightarrow> p = e)
     \<and> (\<forall>p < n * n. currentPos (b ! p) = int p)"

text \<open>
  A sequence of clicks each of which \<open>attemptMove\<close> accepts, played from the board \<open>b\<close>:
  \<open>Some\<close> of the final board, or \<open>None\<close> as soon as one click is ignored or throws.
\<close>

fun legalMoves :: "tile list \<Rightarrow> int \<Rightarrow> int list \<Rightarrow> tile list option" where
  "legalMoves b gridSize [] = Some b"
| "legalMoves b gridSize (t # targets) =
     (case attemptMove b gridSize t of
        Inr (Some b') \<Rightarrow> legalMoves b' gridSize targets
      | _ \<Rightarrow> None)"

text \<open>
  A legal single swap, following the words of the spec and not the code of the swap. Two
  cells are Manhattan-adjacent when their rows (\<open>index div n\<close>) differ by one and their
  columns (\<open>index mod n\<close>) are equal, or their columns differ by one and their rows are
  equal.
\<close>

definition manhattanAdjacent :: "nat \<Rightarrow> nat \<Rightarrow> nat \<Rightarrow> bool" where
  "manhattanAdjacent n t e \<longleftrightarrow>
     (\<bar>int (t div n) - int (e div n)\<bar> = 1 \<and> t mod n = e mod n)
     \<or> (\<bar>int (t mod n) - int (e mod n)\<bar> = 1 \<and> t div n = e div n)"

text \<open>
  The exchange of the tiles at the empty position \<open>e\<close> and the target \<open>t\<close>: the tile that
  was at \<open>e\<close> is now at \<open>t\<close> and the one that was at \<open>t\<close> is now at \<open>e\<close>, each with
  \<open>currentPos\<close> set to its new index.
\<close>

definition exchange :: "tile list \<Rightarrow> nat \<Rightarrow> nat \<Rightarrow> tile list" where
  "exchange b e t = b[t := (b ! e)\<lparr>currentPos := int t\<rparr>, e := (b ! t)\<lparr>currentPos := int e\<rparr>]"

text \<open>
  A sequence of legal single swaps from a board and the position of its empty cell: each
  target is in bounds and Manhattan-adjacent to the empty cell, holds a non-empty tile,
  and is exchanged with the empty cell, which thereby moves to the target. The result is
  the final board with the final position of the empty cell, or \<open>None\<close> if one target is
  not legal.
\<close>

fun legalSwaps :: "nat \<Rightarrow> tile list \<times> nat \<Rightarrow> nat list \<Rightarrow> (tile list \<times> nat) option" where
  "legalSwaps n st [] = Some st"
| "legalSwaps n st (t # targets) =
     (case st of (b, e) \<Rightarrow>
        if length b = n * n \<and> e < n * n \<and> t < n * n
           \<and> isEmpty (b ! e) \<and> \<not> isEmpty (b ! t) \<and> manhattanAdjacent n t e
        then legalSwaps n (exchange b e t, t) targets
        else None)"

text \<open>
  What a tile is apart from its position: no operation may change it.
\<close>

definition tileKey :: "tile \<Rightarrow> int \<times> int \<times> string \<times> bool" where
  "tileKey t = (tileId t, correctPos t, imageUrl t, isEmpty t)"

text \<open>
  The boards that the application can hold for one image list and one grid size: the
  solved board of \<open>generateSolvedState\<close>, and from any such board the result of
  \<open>shuffleTiles\<close> (any step count, any random source) and the board after a click handled
  by \<open>handleTileClick\<close> (accepted, rejected or ignored outside \<open>PLAYING\<close>).
\<close>

inductive produced :: "nat \<Rightarrow> string list \<Rightarrow> tile list \<Rightarrow> bool"
  for n :: nat and tileImages :: "string list" where
  factory: "length tileImages = n * n \<Longrightarrow>
            produced n tileImages (generateSolvedState tileImages (int n))"
| shuffle: "produced n tileImages b \<Longrightarrow> shuffleTiles b (int n) k random = Inr b' \<Longrightarrow>
            produced n tileImages b'"
| move: "produced n tileImages b \<Longrightarrow> tiles_st s = b \<Longrightarrow> difficulty_st s = int n \<Longrightarrow>
         handleTileClick s index = Inr s' \<Longrightarrow> produced n tileImages (tiles_st s')"

text \<open>
  Exactly one tile of the board is empty, and it is the tile created with
  \<open>id = correctPos = n\<^sup>2 - 1\<close>.
\<close>

definition singleEmpty :: "nat \<Rightarrow> tile list \<Rightarrow> bool" where
  "singleEmpty n b \<longleftrightarrow>
     length b = n * n
     \<and> (\<exists>e < n * n. (\<forall>p < n * n. isEmpty (b ! p) \<longleftrightarrow> p = e)
            \<and> tileId (b ! e) = int (n * n) - 1 \<and> correctPos (b ! e) = int (n * n) - 1)"

text \<open>
  The in-bounds orthogonal neighbours of the cell \<open>e\<close> in an \<open>n \<times> n\<close> grid: the indices
  \<open>0, \<dots>, n\<^sup>2 - 1\<close> whose row differs by one with equal columns, or whose column differs
  by one with equal rows (the test that \<open>handleTileClick\<close> applies to a click).
\<close>

definition inBoundsNeighbours :: "nat \<Rightarrow> nat \<Rightarrow> int list" where
  "inBoundsNeighbours n e =
     filter (\<lambda>p. isAdjacent (int n) p (int e)) (map int [0..<n * n])"

text \<open>The solved 2 \<times> 2 board, used to run the operations on a concrete input.\<close>

definition board4 :: "tile list" where
  "board4 = generateSolvedState [''A'', ''B'', ''C'', ''D''] 2"

definition board4_moved :: "tile list" where
  "board4_moved =
     [\<lparr>tileId = 0, currentPos = 0, correctPos = 0, imageUrl = ''A'', isEmpty = False\<rparr>,
      \<lparr>tileId = 3, currentPos = 1, correctPos = 3, imageUrl = ''D'', isEmpty = True\<rparr>,
      \<lparr>tileId = 2, currentPos = 2, correctPos = 2, imageUrl = ''C'', isEmpty = False\<rparr>,
      \<lparr>tileId = 1, currentPos = 3, correctPos = 1, imageUrl = ''B'', isEmpty = False\<rparr>]"

section \<open>generateSolvedState and isSolved\<close>

lemma generateSolvedState_length:
  "length (generateSolvedState imagePieces gridSize) = length imagePieces"
  by (simp add: generateSolvedState_def)

lemma generateSolvedState_nth:
  assumes "i < length imagePieces"
  shows "generateSolvedState imagePieces gridSize ! i =
           \<lparr>tileId = int i, currentPos = int i, correctPos = int i,
            imageUrl = imagePieces ! i, isEmpty = (int i = gridSize * gridSize - 1)\<rparr>"
  using assms by (simp add: generateSolvedState_def nth_enumerate_eq)

lemma generateSolvedState_isSolved:
  "isSolved (generateSolvedState imagePieces gridSize)"
  by (simp add: isSolved_def generateSolvedState_def list_all_iff enumerate_eq_zip in_set_zip
      split_beta)

text \<open>
  C7. For every list \<open>tileImages\<close> of length \<open>gridSize\<^sup>2\<close>, \<open>generateSolvedState\<close> returns a
  sequence in input order (of the same length) whose \<open>i\<close>-th tile has \<open>id = i\<close>,
  \<open>correctPos = i\<close>, \<open>currentPos = i\<close>, \<open>imageUrl = tileImages[i]\<close> and \<open>isEmpty\<close> true exactly
  when \<open>i = gridSize\<^sup>2 - 1\<close>; consequently \<open>isSolved\<close> of this board is true.
\<close>

theorem C7_generateSolvedState:
  assumes "length tileImages = n * n"
  shows "length (generateSolvedState tileImages (int n)) = n * n
         \<and> (\<forall>i < n * n.
               generateSolvedState tileImages (int n) ! i =
                 \<lparr>tileId = int i, currentPos = int i, correctPos = int i,
                  imageUrl = tileImages ! i, isEmpty = (i = n * n - 1)\<rparr>)
         \<and> isSolved (generateSolvedState tileImages (int n))"
proof (intro conjI allI impI)
  show "length (generateSolvedState tileImages (int n)) = n * n"
    using assms by (simp add: generateSolvedState_length)
next
  fix i assume i: "i < n * n"
  then have pos: "0 < n * n" by (cases n) simp_all
  have "(int i = int n * int n - 1) = (i = n * n - 1)"
  proof -
    have "int n * int n - 1 = int (n * n - 1)"
      using pos by (simp add: of_nat_diff)
    then show ?thesis by simp
  qed
  with i assms show "generateSolvedState tileImages (int n) ! i =
      \<lparr>tileId = int i, currentPos = int i, correctPos = int i,
       imageUrl = tileImages ! i, isEmpty = (i = n * n - 1)\<rparr>"
    by (simp add: generateSolvedState_nth)
next
  show "isSolved (generateSolvedState tileImages (int n))"
    by (rule generateSolvedState_isSolved)
qed

theorem C7_generateSolvedState_witness:
  "length [''a'', ''b'', ''c'', ''d''] = 2 * 2
   \<and> generateSolvedState [''a'', ''b'', ''c'', ''d''] (int 2) ! 3 =
       \<lparr>tileId = 3, currentPos = 3, correctPos = 3, imageUrl = ''d'', isEmpty = True\<rparr>
   \<and> generateSolvedState [''a'', ''b'', ''c'', ''d''] (int 2) ! 0 =
       \<lparr>tileId = 0, currentPos = 0, correctPos = 0, imageUrl = ''a'', isEmpty = False\<rparr>
   \<and> isSolved (generateSolvedState [''a'', ''b'', ''c'', ''d''] (int 2))"
  using C7_generateSolvedState [of "[''a'', ''b'', ''c'', ''d'']" 2]
  by simp

section \<open>Array primitives\<close>

lemma js_rem_nonneg: "0 \<le> a \<Longrightarrow> 0 < b \<Longrightarrow> js_rem a b = a mod b"
  by (cases "a = 0") (simp_all add: js_rem_def)

lemma findIndex_ge: "- 1 \<le> findIndex P xs"
  by (induction xs) (auto simp: Let_def)

lemma findIndex_lt: "findIndex P xs < int (length xs)"
  by (induction xs) (auto simp: Let_def)

lemma findIndex_first:
  "e < length xs \<Longrightarrow> P (xs ! e) \<Longrightarrow> (\<forall>p < e. \<not> P (xs ! p)) \<Longrightarrow> findIndex P xs = int e"
proof (induction xs arbitrary: e)
  case Nil
  then show ?case by simp
next
  case (Cons x xs)
  show ?case
  proof (cases e)
    case 0
    with Cons.prems show ?thesis by simp
  next
    case (Suc k)
    with Cons.prems have "\<not> P x" by auto
    moreover have "findIndex P xs = int k"
      using Cons.prems Suc by (intro Cons.IH) auto
    ultimately show ?thesis using Suc by (simp add: Let_def)
  qed
qed

lemma findIndex_unique:
  "e < length xs \<Longrightarrow> (\<forall>p < length xs. P (xs ! p) \<longleftrightarrow> p = e) \<Longrightarrow> findIndex P xs = int e"
  by (rule findIndex_first) auto

lemma swapTiles_in_range:
  "i < length ts \<Longrightarrow> j < length ts \<Longrightarrow>
   swapTiles ts (int i) (int j) =
     Inr (ts[i := (ts ! j)\<lparr>currentPos := int i\<rparr>, j := (ts ! i)\<lparr>currentPos := int j\<rparr>])"
  by (simp add: swapTiles_def arr_get_def)

lemma swapTiles_out_of_range:
  "\<not> (0 \<le> a \<and> a < int (length ts) \<and> 0 \<le> b \<and> b < int (length ts)) \<Longrightarrow>
   swapTiles ts a b = Inl TypeError"
  by (auto simp: swapTiles_def arr_get_def)

lemma isAdjacent_nat:
  "0 < n \<Longrightarrow>
   isAdjacent (int n) (int t) (int e) \<longleftrightarrow>
     (\<bar>int (t div n) - int (e div n)\<bar> = 1 \<and> t mod n = e mod n)
     \<or> (\<bar>int (t mod n) - int (e mod n)\<bar> = 1 \<and> t div n = e div n)"
  by (simp add: isAdjacent_def Let_def js_rem_nonneg flip: of_nat_div of_nat_mod)

lemma isAdjacent_sym: "isAdjacent g a b = isAdjacent g b a"
  by (auto simp: isAdjacent_def Let_def abs_minus_commute)

lemma isAdjacent_irrefl: "\<not> isAdjacent g a a"
  by (simp add: isAdjacent_def Let_def)

lemma swapTiles_Inr_iff:
  "swapTiles ts a c = Inr ts' \<longleftrightarrow>
     0 \<le> a \<and> a < int (length ts) \<and> 0 \<le> c \<and> c < int (length ts)
     \<and> ts' = ts[nat a := (ts ! nat c)\<lparr>currentPos := a\<rparr>, nat c := (ts ! nat a)\<lparr>currentPos := c\<rparr>]"
  by (auto simp: swapTiles_def arr_get_def)

lemma swapTiles_length: "swapTiles ts a c = Inr ts' \<Longrightarrow> length ts' = length ts"
  by (auto simp: swapTiles_Inr_iff)

lemma swapTiles_commute: "swapTiles ts a c = swapTiles ts c a"
proof (cases "a = c")
  case True
  then show ?thesis by simp
next
  case False
  then have "nat a \<noteq> nat c \<or> a < 0 \<or> c < 0" by auto
  then show ?thesis
    by (auto simp: swapTiles_def arr_get_def list_update_swap)
qed

lemma attemptMove_Some_iff:
  "attemptMove ts g t = Inr (Some ts') \<longleftrightarrow>
     isAdjacent g t (findIndex isEmpty ts) \<and> swapTiles ts t (findIndex isEmpty ts) = Inr ts'"
  by (auto simp: attemptMove_def Let_def split: sum.splits)

lemma swap_empty_moves:
  assumes len: "length b = m" and e: "e < m" and t: "t < m" and ne: "t \<noteq> e"
    and one: "\<forall>p < m. isEmpty (b ! p) \<longleftrightarrow> p = e"
  shows "\<forall>p < m. isEmpty ((b[t := (b ! e)\<lparr>currentPos := int t\<rparr>,
                             e := (b ! t)\<lparr>currentPos := int e\<rparr>]) ! p) \<longleftrightarrow> p = t"
  using assms by (auto simp: nth_list_update)

lemma swap_back:
  assumes len: "length b = m" and e: "e < m" and t: "t < m"
    and cp: "\<forall>p < m. currentPos (b ! p) = int p"
  shows "(b[t := (b ! e)\<lparr>currentPos := int t\<rparr>, e := (b ! t)\<lparr>currentPos := int e\<rparr>])
           [e := ((b[t := (b ! e)\<lparr>currentPos := int t\<rparr>, e := (b ! t)\<lparr>currentPos := int e\<rparr>]) ! t)
                    \<lparr>currentPos := int e\<rparr>,
            t := ((b[t := (b ! e)\<lparr>currentPos := int t\<rparr>, e := (b ! t)\<lparr>currentPos := int e\<rparr>]) ! e)
                    \<lparr>currentPos := int t\<rparr>] = b"
  using assms by (auto simp: list_eq_iff_nth_eq nth_list_update)

section \<open>The concrete board\<close>

lemma board4_eq: "board4 =
        [\<lparr>tileId = 0, currentPos = 0, correctPos = 0, imageUrl = ''A'', isEmpty = False\<rparr>,
         \<lparr>tileId = 1, currentPos = 1, correctPos = 1, imageUrl = ''B'', isEmpty = False\<rparr>,
         \<lparr>tileId = 2, currentPos = 2, correctPos = 2, imageUrl = ''C'', isEmpty = False\<rparr>,
         \<lparr>tileId = 3, currentPos = 3, correctPos = 3, imageUrl = ''D'', isEmpty = True\<rparr>]"
  by (simp add: board4_def generateSolvedState_def)

lemma board4_len: "length board4 = 2 * 2"
  by (simp add: board4_eq)

lemma board4_one: "\<forall>p < 2 * 2. isEmpty (board4 ! p) \<longleftrightarrow> p = 3"
proof (intro allI impI)
  fix p :: nat assume "p < 2 * 2"
  then have "p = 0 \<or> p = 1 \<or> p = 2 \<or> p = 3" by auto
  then show "isEmpty (board4 ! p) \<longleftrightarrow> p = 3"
    by (auto simp: board4_eq)
qed

lemma board4_cp: "\<forall>p < 2 * 2. currentPos (board4 ! p) = int p"
proof (intro allI impI)
  fix p :: nat assume "p < 2 * 2"
  then have "p = 0 \<or> p = 1 \<or> p = 2 \<or> p = 3" by auto
  then show "currentPos (board4 ! p) = int p"
    by (auto simp: board4_eq)
qed

lemma board4_findIndex: "findIndex isEmpty board4 = 3"
  by (simp add: board4_eq)

lemma board4_click1: "attemptMove board4 2 1 = Inr (Some board4_moved)"
  by (simp add: attemptMove_def board4_findIndex isAdjacent_def js_rem_def swapTiles_def
      arr_get_def board4_eq board4_moved_def eval_nat_numeral)

section \<open>handleTileClick: legality of a move\<close>

lemma handleTileClick_PLAYING:
  "gameState_st s = PLAYING \<Longrightarrow>
   handleTileClick s index =
     (case attemptMove (tiles_st s) (difficulty_st s) index of
        Inl e \<Rightarrow> Inl e
      | Inr None \<Rightarrow> Inr s
      | Inr (Some newTiles) \<Rightarrow>
          Inr (s\<lparr>tiles_st := newTiles, moves_st := moves_st s + 1,
                 gameState_st := (if isSolved newTiles then WON else PLAYING)\<rparr>))"
  by (simp add: handleTileClick_def split: sum.splits option.splits)

lemma handleTileClick_not_PLAYING:
  "gameState_st s \<noteq> PLAYING \<Longrightarrow> handleTileClick s index = Inr s"
  by (simp add: handleTileClick_def)

lemma attemptMove_legal:
  assumes "length b = n * n"
    and "e < n * n"
    and "\<forall>p < n * n. isEmpty (b ! p) \<longleftrightarrow> p = e"
    and "t < n * n"
  shows "attemptMove b (int n) (int t) =
           (if (\<bar>int (t div n) - int (e div n)\<bar> = 1 \<and> t mod n = e mod n)
               \<or> (\<bar>int (t mod n) - int (e mod n)\<bar> = 1 \<and> t div n = e div n)
            then Inr (Some (b[t := (b ! e)\<lparr>currentPos := int t\<rparr>,
                              e := (b ! t)\<lparr>currentPos := int e\<rparr>]))
            else Inr None)"
proof -
  have n: "0 < n" using assms(2) by (cases n) simp_all
  have fi: "findIndex isEmpty b = int e"
    using assms by (intro findIndex_unique) auto
  show ?thesis
    using assms(1,2,4) n
    by (simp add: attemptMove_def fi isAdjacent_nat swapTiles_in_range)
qed

text \<open>
  C1. For every board of length \<open>n\<^sup>2\<close> with exactly one empty tile, at index \<open>e\<close>, and every
  \<open>targetIndex\<close> in \<open>[0, n\<^sup>2)\<close>, the move is accepted if and only if the target is
  Manhattan-adjacent to \<open>e\<close> (row difference 1 with equal columns, or column difference 1
  with equal rows, where row is \<open>index div n\<close> and column is \<open>index mod n\<close>). When
  accepted, the result is the board with the tiles at \<open>targetIndex\<close> and \<open>e\<close> swapped and
  both tiles' \<open>currentPos\<close> set to their new indices; when rejected, no new board is
  produced and nothing is thrown. For the handler in the state \<open>PLAYING\<close> this means: an
  accepted click installs the swapped board (and counts a move), a rejected click leaves
  the state as it is.
\<close>

theorem C1_attemptMove:
  assumes "length b = n * n"
    and "e < n * n"
    and "\<forall>p < n * n. isEmpty (b ! p) \<longleftrightarrow> p = e"
    and "t < n * n"
  shows "attemptMove b (int n) (int t) =
           (if (\<bar>int (t div n) - int (e div n)\<bar> = 1 \<and> t mod n = e mod n)
               \<or> (\<bar>int (t mod n) - int (e mod n)\<bar> = 1 \<and> t div n = e div n)
            then Inr (Some (b[t := (b ! e)\<lparr>currentPos := int t\<rparr>,
                              e := (b ! t)\<lparr>currentPos := int e\<rparr>]))
            else Inr None)
         \<and> (\<forall>s. gameState_st s = PLAYING \<and> tiles_st s = b \<and> difficulty_st s = int n \<longrightarrow>
               handleTileClick s (int t) =
                 (if (\<bar>int (t div n) - int (e div n)\<bar> = 1 \<and> t mod n = e mod n)
                     \<or> (\<bar>int (t mod n) - int (e mod n)\<bar> = 1 \<and> t div n = e div n)
                  then Inr (s\<lparr>tiles_st := b[t := (b ! e)\<lparr>currentPos := int t\<rparr>,
                                             e := (b ! t)\<lparr>currentPos := int e\<rparr>],
                              moves_st := moves_st s + 1,
                              gameState_st :=
                                (if isSolved (b[t := (b ! e)\<lparr>currentPos := int t\<rparr>,
                                                e := (b ! t)\<lparr>currentPos := int e\<rparr>])
                                 then WON else PLAYING)\<rparr>)
                  else Inr s))"
proof (intro conjI allI impI)
  show "attemptMove b (int n) (int t) =
           (if (\<bar>int (t div n) - int (e div n)\<bar> = 1 \<and> t mod n = e mod n)
               \<or> (\<bar>int (t mod n) - int (e mod n)\<bar> = 1 \<and> t div n = e div n)
            then Inr (Some (b[t := (b ! e)\<lparr>currentPos := int t\<rparr>,
                              e := (b ! t)\<lparr>currentPos := int e\<rparr>]))
            else Inr None)"
    using assms by (rule attemptMove_legal)
next
  fix s :: app
  assume s: "gameState_st s = PLAYING \<and> tiles_st s = b \<and> difficulty_st s = int n"
  then have pl: "gameState_st s = PLAYING" by simp
  show "handleTileClick s (int t) =
                 (if (\<bar>int (t div n) - int (e div n)\<bar> = 1 \<and> t mod n = e mod n)
                     \<or> (\<bar>int (t mod n) - int (e mod n)\<bar> = 1 \<and> t div n = e div n)
                  then Inr (s\<lparr>tiles_st := b[t := (b ! e)\<lparr>currentPos := int t\<rparr>,
                                             e := (b ! t)\<lparr>currentPos := int e\<rparr>],
                              moves_st := moves_st s + 1,
                              gameState_st :=
                                (if isSolved (b[t := (b ! e)\<lparr>currentPos := int t\<rparr>,
                                                e := (b ! t)\<lparr>currentPos := int e\<rparr>])
                                 then WON else PLAYING)\<rparr>)
                  else Inr s)"
    unfolding handleTileClick_PLAYING [OF pl] using s attemptMove_legal [OF assms]
    by simp
qed

theorem C1_attemptMove_witness:
  "attemptMove board4 (int 2) (int 1) = Inr (Some board4_moved)
   \<and> attemptMove board4 (int 2) (int 0) = Inr None
   \<and> handleTileClick \<lparr>difficulty_st = int 2, tiles_st = board4, gameState_st = PLAYING,
                       moves_st = 0\<rparr> (int 0)
       = Inr \<lparr>difficulty_st = int 2, tiles_st = board4, gameState_st = PLAYING, moves_st = 0\<rparr>"
proof -
  have e: "(3::nat) < 2 * 2" and t1: "(1::nat) < 2 * 2" and t0: "(0::nat) < 2 * 2"
    by simp_all
  have n1: "board4 ! 1 = \<lparr>tileId = 1, currentPos = 1, correctPos = 1, imageUrl = ''B'', isEmpty = False\<rparr>"
    and n3: "board4 ! 3 = \<lparr>tileId = 3, currentPos = 3, correctPos = 3, imageUrl = ''D'', isEmpty = True\<rparr>"
    by (simp_all add: board4_eq eval_nat_numeral)
  have upd: "board4[1 := (board4 ! 3)\<lparr>currentPos := int 1\<rparr>, 3 := (board4 ! 1)\<lparr>currentPos := int 3\<rparr>]
     = board4_moved"
    unfolding n1 n3 by (simp add: board4_eq board4_moved_def eval_nat_numeral)
  have a1: "attemptMove board4 (int 2) (int 1) = Inr (Some board4_moved)"
    using C1_attemptMove [OF board4_len e board4_one t1] unfolding upd by simp
  have c0: "attemptMove board4 (int 2) (int 0) = Inr None
    \<and> (\<forall>s. gameState_st s = PLAYING \<and> tiles_st s = board4 \<and> difficulty_st s = int 2 \<longrightarrow>
          handleTileClick s (int 0) = Inr s)"
    using C1_attemptMove [OF board4_len e board4_one t0] by simp
  then have h0: "handleTileClick \<lparr>difficulty_st = int 2, tiles_st = board4, gameState_st = PLAYING,
                       moves_st = 0\<rparr> (int 0)
       = Inr \<lparr>difficulty_st = int 2, tiles_st = board4, gameState_st = PLAYING, moves_st = 0\<rparr>"
    by simp
  show ?thesis using a1 c0 h0 by blast
qed

section \<open>Accepted moves\<close>

lemma wellFormed_findIndex: "wellFormed n b e \<Longrightarrow> findIndex isEmpty b = int e"
  unfolding wellFormed_def by (intro findIndex_unique) auto

lemma attemptMove_accepted:
  assumes wf: "wellFormed n b e" and acc: "attemptMove b (int n) i = Inr (Some b')"
  shows "\<exists>t < n * n. i = int t \<and> t \<noteq> e \<and> isAdjacent (int n) (int t) (int e)
           \<and> b' = b[t := (b ! e)\<lparr>currentPos := int t\<rparr>, e := (b ! t)\<lparr>currentPos := int e\<rparr>]
           \<and> wellFormed n b' t"
proof -
  have fi: "findIndex isEmpty b = int e" by (rule wellFormed_findIndex [OF wf])
  from acc have adj: "isAdjacent (int n) i (int e)"
    and sw: "swapTiles b i (int e) = Inr b'"
    by (simp_all add: attemptMove_Some_iff fi)
  from sw have i0: "0 \<le> i" and il: "i < int (length b)"
    and b': "b' = b[nat i := (b ! e)\<lparr>currentPos := i\<rparr>, e := (b ! nat i)\<lparr>currentPos := int e\<rparr>]"
    by (simp_all add: swapTiles_Inr_iff)
  define t where "t = nat i"
  have it: "i = int t" using i0 by (simp add: t_def)
  have len: "length b = n * n" and e: "e < n * n"
    and one: "\<forall>p < n * n. isEmpty (b ! p) \<longleftrightarrow> p = e"
    and cp: "\<forall>p < n * n. currentPos (b ! p) = int p"
    using wf by (simp_all add: wellFormed_def)
  have "int t < int (n * n)" using il len it by simp
  then have t: "t < n * n" by (simp only: of_nat_less_iff)
  have adj': "isAdjacent (int n) (int t) (int e)" using adj by (simp add: it)
  have ne: "t \<noteq> e" using adj' isAdjacent_irrefl by auto
  have b'': "b' = b[t := (b ! e)\<lparr>currentPos := int t\<rparr>, e := (b ! t)\<lparr>currentPos := int e\<rparr>]"
    by (simp add: b' it)
  have wf': "wellFormed n b' t"
    unfolding wellFormed_def
  proof (intro conjI)
    show "length b' = n * n" using len b'' by simp
    show "t < n * n" by (rule t)
    show "\<forall>p < n * n. isEmpty (b' ! p) \<longleftrightarrow> p = t"
      unfolding b'' by (rule swap_empty_moves [OF len e t ne one])
    show "\<forall>p < n * n. currentPos (b' ! p) = int p"
      unfolding b'' using len e t cp by (auto simp: nth_list_update)
  qed
  show ?thesis
    by (rule exI [of _ t]) (intro conjI t it ne adj' b'' wf')
qed


lemma attemptMove_inverse:
  assumes wf: "wellFormed n b e" and acc: "attemptMove b (int n) i = Inr (Some b')"
  shows "findIndex isEmpty b' = i \<and> attemptMove b' (int n) (int e) = Inr (Some b)"
proof -
  from attemptMove_accepted [OF wf acc] obtain t where t: "t < n * n" and it: "i = int t"
    and ne: "t \<noteq> e" and adj: "isAdjacent (int n) (int t) (int e)"
    and b': "b' = b[t := (b ! e)\<lparr>currentPos := int t\<rparr>, e := (b ! t)\<lparr>currentPos := int e\<rparr>]"
    and wf': "wellFormed n b' t"
    by blast
  have len: "length b = n * n" and e: "e < n * n"
    and cp: "\<forall>p < n * n. currentPos (b ! p) = int p"
    using wf by (simp_all add: wellFormed_def)
  have fi': "findIndex isEmpty b' = int t" by (rule wellFormed_findIndex [OF wf'])
  have len': "length b' = n * n" using wf' by (simp add: wellFormed_def)
  have undo: "b'[e := (b' ! t)\<lparr>currentPos := int e\<rparr>, t := (b' ! e)\<lparr>currentPos := int t\<rparr>] = b"
    unfolding b' by (rule swap_back [OF len e t cp])
  have "swapTiles b' (int e) (int t)
          = Inr (b'[e := (b' ! t)\<lparr>currentPos := int e\<rparr>, t := (b' ! e)\<lparr>currentPos := int t\<rparr>])"
    using e t len' by (intro swapTiles_in_range) simp_all
  then have sw: "swapTiles b' (int e) (int t) = Inr b"
    by (simp only: undo)
  have adj': "isAdjacent (int n) (int e) (int t)"
    using adj by (simp add: isAdjacent_sym)
  have "attemptMove b' (int n) (int e) = Inr (Some b)"
    unfolding attemptMove_Some_iff fi' using adj' sw by blast
  with fi' it show ?thesis by simp
qed

text \<open>
  C5. Accepted moves are self-inverse: on a well-formed board with its empty cell at \<open>e\<close>,
  if the click on \<open>i\<close> is accepted, then the empty cell of the resulting board is at \<open>i\<close>,
  the click on \<open>e\<close> is accepted on the resulting board, and its result is the original
  board.
\<close>

theorem C5_move_self_inverse:
  assumes "length b = n * n" and "e < n * n"
    and "\<forall>p < n * n. isEmpty (b ! p) \<longleftrightarrow> p = e"
    and "\<forall>p < n * n. currentPos (b ! p) = int p"
    and "attemptMove b (int n) i = Inr (Some b')"
  shows "findIndex isEmpty b' = i \<and> attemptMove b' (int n) (int e) = Inr (Some b)"
proof -
  have "wellFormed n b e" using assms(1-4) by (simp add: wellFormed_def)
  then show ?thesis using assms(5) by (rule attemptMove_inverse)
qed

theorem C5_move_self_inverse_witness:
  "attemptMove board4 (int 2) 1 = Inr (Some board4_moved)
   \<and> findIndex isEmpty board4_moved = 1
   \<and> attemptMove board4_moved (int 2) (int 3) = Inr (Some board4)"
proof -
  have e: "(3::nat) < 2 * 2" by simp
  have acc: "attemptMove board4 (int 2) 1 = Inr (Some board4_moved)"
    using board4_click1 by simp
  show ?thesis
    using C5_move_self_inverse [OF board4_len e board4_one board4_cp acc] acc by simp
qed

text \<open>
  C9. The move has no bounds check on \<open>targetIndex\<close>: with the empty cell \<open>e\<close> in the bottom
  row of an \<open>n \<times> n\<close> board, the index \<open>e + n\<close> is at least \<open>n\<^sup>2\<close>, its computed row is \<open>n\<close>
  (one more than the row \<open>n - 1\<close> of \<open>e\<close>) and its column is that of \<open>e\<close>, so it passes the
  adjacency test; the swap then reads the array past its end and the write to
  \<open>currentPos\<close> of the undefined element throws.
\<close>

theorem C9_no_bounds_check:
  assumes "length b = n * n" and "e < n * n"
    and "\<forall>p < n * n. isEmpty (b ! p) \<longleftrightarrow> p = e"
    and "n * n - n \<le> e"
  shows "isAdjacent (int n) (int (e + n)) (int e)
         \<and> (e + n) div n = n \<and> e div n = n - 1 \<and> (e + n) mod n = e mod n
         \<and> n * n \<le> e + n
         \<and> attemptMove b (int n) (int (e + n)) = Inl TypeError"
proof -
  have n: "0 < n" using assms(2) by (cases n) simp_all
  have fi: "findIndex isEmpty b = int e"
    using assms by (intro findIndex_unique) auto
  have dv: "(e + n) div n = e div n + 1" and md: "(e + n) mod n = e mod n"
    using n by simp_all
  have adj: "isAdjacent (int n) (int (e + n)) (int e)"
    unfolding isAdjacent_nat [OF n] dv md by simp
  have ge: "n * n \<le> e + n" using assms(4) by simp
  have "(n - 1) * n \<le> e" using assms(4) by (simp add: diff_mult_distrib)
  then have "(n - 1) * n div n \<le> e div n" by (rule div_le_mono)
  then have lo: "n - 1 \<le> e div n" using n by simp
  have hi: "e div n < n" using assms(2) n by (simp add: less_mult_imp_div_less)
  have row: "e div n = n - 1" using lo hi by simp
  have dn: "(e + n) div n = n" using dv row n by simp
  have oob: "\<not> int (e + n) < int (length b)"
    using ge assms(1) by (simp only: of_nat_less_iff)
  have sw: "swapTiles b (int (e + n)) (int e) = Inl TypeError"
  proof (rule swapTiles_out_of_range)
    show "\<not> (0 \<le> int (e + n) \<and> int (e + n) < int (length b)
              \<and> 0 \<le> int e \<and> int e < int (length b))"
      using oob by blast
  qed
  have am: "attemptMove b (int n) (int (e + n)) = Inl TypeError"
    unfolding attemptMove_def Let_def fi using adj sw by (simp only: if_True sum.case)
  show ?thesis
    by (intro conjI adj dn row md ge am)
qed

theorem C9_no_bounds_check_witness:
  "isAdjacent (int 2) (int (3 + 2)) (int 3)
   \<and> (2::nat) * 2 \<le> 3 + 2
   \<and> attemptMove board4 (int 2) (int (3 + 2)) = Inl TypeError"
proof -
  have e: "(3::nat) < 2 * 2" and bottom: "(2::nat) * 2 - 2 \<le> 3" by simp_all
  show ?thesis
    using C9_no_bounds_check [OF board4_len e board4_one bottom] by blast
qed

section \<open>shuffleTiles: the candidate moves\<close>

lemma validMoves_two:
  "2 \<le> n \<Longrightarrow> 2 \<le> length (validMoves n e) \<and> distinct (validMoves n e)"
  by (auto simp: validMoves_def Let_def)

lemma filter_neq_distinct:
  "distinct xs \<Longrightarrow> 2 \<le> length xs \<Longrightarrow> filter (\<lambda>x. x \<noteq> y) xs \<noteq> []"
proof (cases xs)
  case Nil
  then show "2 \<le> length xs \<Longrightarrow> ?thesis" by simp
next
  case (Cons a as)
  assume d: "distinct xs" and l: "2 \<le> length xs"
  from l Cons obtain c cs where as: "as = c # cs" by (cases as) auto
  from d Cons as have "a \<noteq> c" by auto
  then have "a \<noteq> y \<or> c \<noteq> y" by auto
  then show ?thesis using Cons as by (auto simp: filter_empty_conv)
qed

lemma filteredMoves_nonempty: "2 \<le> n \<Longrightarrow> filteredMoves n e prev \<noteq> []"
  unfolding filteredMoves_def using validMoves_two [of n e]
  by (intro filter_neq_distinct) auto

lemma randomIndex_bounds:
  assumes "0 \<le> r" and "r < 1" and "0 < len"
  shows "0 \<le> randomIndex r len \<and> randomIndex r len < int len"
proof -
  have "0 \<le> r * real len" using assms by simp
  then have lo: "0 \<le> randomIndex r len" by (simp add: randomIndex_def)
  have "r * real len < 1 * real len" using assms by (intro mult_strict_right_mono) simp_all
  then have "r * real len < of_int (int len)" by simp
  then have hi: "randomIndex r len < int len"
    unfolding randomIndex_def by (simp only: floor_less_iff)
  from lo hi show ?thesis by simp
qed

lemma arr_get_random:
  assumes "0 \<le> r" and "r < 1" and "xs \<noteq> []"
  shows "\<exists>k < length xs. randomIndex r (length xs) = int k \<and> arr_get xs (randomIndex r (length xs)) = Some (xs ! k)"
proof -
  have "0 < length xs" using assms(3) by simp
  from randomIndex_bounds [OF assms(1,2) this]
  have lo: "0 \<le> randomIndex r (length xs)" and hi: "randomIndex r (length xs) < int (length xs)"
    by simp_all
  define k where "k = nat (randomIndex r (length xs))"
  have k: "randomIndex r (length xs) = int k" using lo by (simp add: k_def)
  have "int k < int (length xs)" using hi k by simp
  then have kl: "k < length xs" by (simp only: of_nat_less_iff)
  have "arr_get xs (int k) = Some (xs ! k)" using kl by (simp add: arr_get_def)
  then show ?thesis using kl k by auto
qed

lemma chooseTarget_filtered:
  assumes "2 \<le> n" and "0 \<le> r" and "r < 1"
  shows "\<exists>k < length (filteredMoves n e prev).
           randomIndex r (length (filteredMoves n e prev)) = int k
           \<and> chooseTarget n e prev r = Some (filteredMoves n e prev ! k)"
proof -
  have ne: "filteredMoves n e prev \<noteq> []" by (rule filteredMoves_nonempty [OF assms(1)])
  then have "chooseTarget n e prev r
      = arr_get (filteredMoves n e prev) (randomIndex r (length (filteredMoves n e prev)))"
    by (simp add: chooseTarget_def Let_def)
  with arr_get_random [OF assms(2,3) ne] show ?thesis by auto
qed

lemma idx_eq_iff: "(p = x) \<longleftrightarrow> (p div n = x div n \<and> p mod n = x mod n)" for p x n :: int
  by (metis mult_div_mod_eq)

lemma div_sub_self: "0 < n \<Longrightarrow> (e - n) div n = e div n - 1" for e n :: int
  by (metis div_add_self2 diff_add_cancel add_diff_cancel_right' less_irrefl)

lemma div_pred: "0 < n \<Longrightarrow> 0 < e mod n \<Longrightarrow> (e - 1) div n = e div n \<and> (e - 1) mod n = e mod n - 1"
  for e n :: int
proof -
  assume n: "0 < n" and r: "0 < e mod n"
  have lt: "e mod n < n" using n by simp
  have eq: "e - 1 = n * (e div n) + (e mod n - 1)" by simp
  have "(e - 1) div n = e div n"
    by (rule int_div_pos_eq [OF eq]) (use r lt in simp_all)
  moreover have "(e - 1) mod n = e mod n - 1"
    by (rule int_mod_pos_eq [OF eq]) (use r lt in simp_all)
  ultimately show ?thesis by simp
qed

lemma div_succ: "0 < n \<Longrightarrow> e mod n < n - 1 \<Longrightarrow> (e + 1) div n = e div n \<and> (e + 1) mod n = e mod n + 1"
  for e n :: int
proof -
  assume n: "0 < n" and r: "e mod n < n - 1"
  have ge: "0 \<le> e mod n" using n by simp
  have eq: "e + 1 = n * (e div n) + (e mod n + 1)" by simp
  have "(e + 1) div n = e div n"
    by (rule int_div_pos_eq [OF eq]) (use r ge in simp_all)
  moreover have "(e + 1) mod n = e mod n + 1"
    by (rule int_mod_pos_eq [OF eq]) (use r ge in simp_all)
  ultimately show ?thesis by simp
qed

lemma lt_square_iff: "0 < n \<Longrightarrow> p < n * n \<longleftrightarrow> p div n < n" for p n :: int
proof
  assume n: "0 < n" and lt: "p < n * n"
  show "p div n < n"
  proof (rule ccontr)
    assume "\<not> p div n < n"
    then have "n * n \<le> n * (p div n)" using n by (intro mult_left_mono) simp_all
    moreover have "n * (p div n) \<le> p"
      using n by (metis mult_div_mod_eq pos_mod_sign le_add_same_cancel1)
    ultimately show False using lt by simp
  qed
next
  assume n: "0 < n" and lt: "p div n < n"
  then have "n * (p div n) \<le> n * (n - 1)" by (intro mult_left_mono) simp_all
  moreover have "p = n * (p div n) + p mod n" by simp
  moreover have "p mod n < n" using n by simp
  ultimately have "p < n * (n - 1) + n" by linarith
  then show "p < n * n" by (simp add: algebra_simps)
qed

lemma validMoves_mem:
  assumes n: "0 < n" and e0: "0 \<le> e" and en: "e < n * n"
  shows "p \<in> set (validMoves n e) \<longleftrightarrow> 0 \<le> p \<and> p < n * n \<and> isAdjacent n p e"
proof -
  define q where "q = e div n"
  define r where "r = e mod n"
  define pd where "pd = p div n"
  define pm where "pm = p mod n"
  have r: "0 \<le> r" "r < n" using n by (simp_all add: r_def)
  have pm: "0 \<le> pm" "pm < n" using n by (simp_all add: pm_def)
  have q: "0 \<le> q" "q < n"
    using n e0 en by (simp_all add: q_def pos_imp_zdiv_nonneg_iff lt_square_iff)
  have p0: "0 \<le> p \<longleftrightarrow> 0 \<le> pd" using n by (simp add: pd_def pos_imp_zdiv_nonneg_iff)
  have pn: "p < n * n \<longleftrightarrow> pd < n" using n by (simp add: pd_def lt_square_iff)
  have up: "p = e - n \<longleftrightarrow> pd = q - 1 \<and> pm = r"
    using n by (subst idx_eq_iff [of p "e - n" n]) (simp add: div_sub_self pd_def pm_def q_def r_def)
  have down: "p = e + n \<longleftrightarrow> pd = q + 1 \<and> pm = r"
    using n by (subst idx_eq_iff [of p "e + n" n]) (simp add: pd_def pm_def q_def r_def)
  have left: "p = e - 1 \<longleftrightarrow> pd = q \<and> pm = r - 1" if "0 < r"
    using n that div_pred [of n e]
    by (subst idx_eq_iff [of p "e - 1" n]) (simp add: pd_def pm_def q_def r_def)
  have right: "p = e + 1 \<longleftrightarrow> pd = q \<and> pm = r + 1" if "r < n - 1"
    using n that div_succ [of n e]
    by (subst idx_eq_iff [of p "e + 1" n]) (simp add: pd_def pm_def q_def r_def)
  have mem: "p \<in> set (validMoves n e) \<longleftrightarrow>
      (0 < q \<and> p = e - n) \<or> (q < n - 1 \<and> p = e + n) \<or> (0 < r \<and> p = e - 1) \<or> (r < n - 1 \<and> p = e + 1)"
    using n e0 by (auto simp: validMoves_def Let_def js_rem_nonneg q_def r_def)
  have mem': "p \<in> set (validMoves n e) \<longleftrightarrow>
      (0 < q \<and> pd = q - 1 \<and> pm = r) \<or> (q < n - 1 \<and> pd = q + 1 \<and> pm = r)
      \<or> (0 < r \<and> pd = q \<and> pm = r - 1) \<or> (r < n - 1 \<and> pd = q \<and> pm = r + 1)"
    unfolding mem using up down left right by blast
  show ?thesis
  proof (cases "0 \<le> p")
    case True
    have adj: "isAdjacent n p e \<longleftrightarrow> (\<bar>pd - q\<bar> = 1 \<and> pm = r) \<or> (\<bar>pm - r\<bar> = 1 \<and> pd = q)"
      using n e0 True by (simp add: isAdjacent_def Let_def js_rem_nonneg pd_def pm_def q_def r_def)
    have pd0: "0 \<le> pd" using True p0 by simp
    show ?thesis
      unfolding mem' adj pn using True pd0 r pm q by auto
  next
    case False
    then have "\<not> 0 \<le> pd" using p0 by simp
    then have "p \<notin> set (validMoves n e)"
      unfolding mem' using r q by auto
    with False show ?thesis by simp
  qed
qed

lemma validMoves_2_3: "validMoves 2 3 = [1, 2]"
  by (simp add: validMoves_def js_rem_def)

lemma chooseTarget_2_3: "chooseTarget 2 3 1 0 = Some 2" "chooseTarget 2 3 (- 1) 0 = Some 1"
  by (simp_all add: chooseTarget_def filteredMoves_def validMoves_2_3 randomIndex_def arr_get_def)

section \<open>shuffleTiles: every step is a legal move\<close>

lemma legalMoves_append:
  "legalMoves b g (xs @ ys) =
     (case legalMoves b g xs of None \<Rightarrow> None | Some b' \<Rightarrow> legalMoves b' g ys)"
  by (induction xs arbitrary: b) (auto split: sum.splits option.splits)

lemma shuffleStep_legal:
  assumes n: "2 \<le> n" and r: "0 \<le> r" "r < 1" and wf: "wellFormed n ts e"
  shows "\<exists>t ts'. shuffleStep (int n) r (ts, int e, prev) = Inr (ts', int t, int e)
           \<and> int t \<in> set (filteredMoves (int n) (int e) prev)
           \<and> attemptMove ts (int n) (int t) = Inr (Some ts')
           \<and> wellFormed n ts' t"
proof -
  have n2: "2 \<le> int n" and n0: "0 < int n" using n by simp_all
  have len: "length ts = n * n" and e: "e < n * n"
    using wf by (simp_all add: wellFormed_def)
  have fi: "findIndex isEmpty ts = int e" by (rule wellFormed_findIndex [OF wf])
  from chooseTarget_filtered [OF n2 r, of "int e" prev]
  obtain k where k: "k < length (filteredMoves (int n) (int e) prev)"
    and ct: "chooseTarget (int n) (int e) prev r = Some (filteredMoves (int n) (int e) prev ! k)"
    by blast
  define ti where "ti = filteredMoves (int n) (int e) prev ! k"
  have tf: "ti \<in> set (filteredMoves (int n) (int e) prev)"
    unfolding ti_def using k by (rule nth_mem)
  then have tv: "ti \<in> set (validMoves (int n) (int e))"
    by (simp add: filteredMoves_def)
  have e0: "0 \<le> int e" by simp
  have "int e < int (n * n)" using e by (simp only: of_nat_less_iff)
  then have en: "int e < int n * int n" by simp
  from tv have t0: "0 \<le> ti" and tn: "ti < int n * int n" and adj: "isAdjacent (int n) ti (int e)"
    unfolding validMoves_mem [OF n0 e0 en] by simp_all
  define t where "t = nat ti"
  have ti: "ti = int t" using t0 by (simp add: t_def)
  have "int t < int (n * n)" using tn ti by simp
  then have t: "t < n * n" by (simp only: of_nat_less_iff)
  define ts' where "ts' = ts[t := (ts ! e)\<lparr>currentPos := int t\<rparr>, e := (ts ! t)\<lparr>currentPos := int e\<rparr>]"
  have sw: "swapTiles ts (int t) (int e) = Inr ts'"
    unfolding ts'_def using t e len by (intro swapTiles_in_range) simp_all
  have am: "attemptMove ts (int n) (int t) = Inr (Some ts')"
    unfolding attemptMove_Some_iff fi using adj sw ti by simp
  from attemptMove_accepted [OF wf am] have wf': "wellFormed n ts' t"
    by auto
  have sw': "swapTiles ts (int e) (int t) = Inr ts'"
    using sw by (simp only: swapTiles_commute [of ts "int e" "int t"])
  have st: "shuffleStep (int n) r (ts, int e, prev) = Inr (ts', int t, int e)"
    unfolding shuffleStep_def using ct sw' by (simp add: ti_def [symmetric] ti)
  have tf': "int t \<in> set (filteredMoves (int n) (int e) prev)" using tf ti by simp
  show ?thesis
    using st tf' am wf' by blast
qed

lemma legalSwaps_append:
  "legalSwaps n st (xs @ ys) =
     (case legalSwaps n st xs of None \<Rightarrow> None | Some st' \<Rightarrow> legalSwaps n st' ys)"
  by (induction xs arbitrary: st) (auto split: prod.splits)

lemma manhattanAdjacent_sym: "manhattanAdjacent n t e = manhattanAdjacent n e t"
  by (auto simp: manhattanAdjacent_def abs_minus_commute)

lemma shuffleStep_Inr_target:
  "shuffleStep g r (ts, e, prev) = Inr (ts', t, e') \<Longrightarrow> chooseTarget g e prev r = Some t"
  by (auto simp: shuffleStep_def split: option.splits sum.splits)

lemma shuffleStep_exchange:
  assumes n: "2 \<le> n" and r: "0 \<le> r" "r < 1" and wf: "wellFormed n ts e"
  shows "\<exists>t. t < n * n \<and> t \<noteq> e \<and> manhattanAdjacent n t e
           \<and> chooseTarget (int n) (int e) prev r = Some (int t)
           \<and> shuffleStep (int n) r (ts, int e, prev) = Inr (exchange ts e t, int t, int e)
           \<and> attemptMove ts (int n) (int t) = Inr (Some (exchange ts e t))
           \<and> wellFormed n (exchange ts e t) t"
proof -
  have n0: "0 < n" using n by simp
  from shuffleStep_legal [OF n r wf, of prev]
  obtain t0 ts' where st: "shuffleStep (int n) r (ts, int e, prev) = Inr (ts', int t0, int e)"
    and am: "attemptMove ts (int n) (int t0) = Inr (Some ts')"
    by blast
  from attemptMove_accepted [OF wf am]
  obtain t where t: "t < n * n" and tt: "int t0 = int t" and ne: "t \<noteq> e"
    and adj: "isAdjacent (int n) (int t) (int e)"
    and ts': "ts' = ts[t := (ts ! e)\<lparr>currentPos := int t\<rparr>, e := (ts ! t)\<lparr>currentPos := int e\<rparr>]"
    and wf': "wellFormed n ts' t"
    by blast
  have ex: "ts' = exchange ts e t" using ts' by (simp add: exchange_def)
  have t0: "t0 = t" using tt by simp
  have ma: "manhattanAdjacent n t e"
    using adj unfolding isAdjacent_nat [OF n0] manhattanAdjacent_def by simp
  have st': "shuffleStep (int n) r (ts, int e, prev) = Inr (exchange ts e t, int t, int e)"
    using st unfolding ex t0 by simp
  have ct: "chooseTarget (int n) (int e) prev r = Some (int t)"
    using st' by (rule shuffleStep_Inr_target)
  have am': "attemptMove ts (int n) (int t) = Inr (Some (exchange ts e t))"
    using am unfolding ex t0 by simp
  have wf'': "wellFormed n (exchange ts e t) t" using wf' unfolding ex by simp
  show ?thesis
    by (rule exI [of _ t]) (intro conjI t ne ma ct st' am' wf'')
qed

lemma legalSwaps_step:
  assumes wf: "wellFormed n ts e" and t: "t < n * n" and ne: "t \<noteq> e"
    and ma: "manhattanAdjacent n t e"
  shows "legalSwaps n (ts, e) (t # targets) = legalSwaps n (exchange ts e t, t) targets"
proof -
  have len: "length ts = n * n" and e: "e < n * n"
    and one: "\<forall>p < n * n. isEmpty (ts ! p) \<longleftrightarrow> p = e"
    using wf by (simp_all add: wellFormed_def)
  have "isEmpty (ts ! e)" and "\<not> isEmpty (ts ! t)" using one e t ne by simp_all
  then show ?thesis using len e t ma by simp
qed

lemma exchange_back:
  assumes wf: "wellFormed n ts e" and t: "t < n * n"
  shows "exchange (exchange ts e t) t e = ts"
proof -
  have len: "length ts = n * n" and e: "e < n * n"
    and cp: "\<forall>p < n * n. currentPos (ts ! p) = int p"
    using wf by (simp_all add: wellFormed_def)
  show ?thesis
    unfolding exchange_def by (rule swap_back [OF len e t cp])
qed

lemma shuffleLoop_swaps:
  assumes n: "2 \<le> n" and rnd: "\<forall>j. 0 \<le> random j \<and> random j < 1"
  shows "wellFormed n ts e \<Longrightarrow> d = m - i \<Longrightarrow>
         \<exists>ts' e' prev' targets ret.
            shuffleLoop (int n) random m i (ts, int e, prev) = Inr (ts', int e', prev')
            \<and> wellFormed n ts' e'
            \<and> length targets = m - i
            \<and> legalSwaps n (ts, e) targets = Some (ts', e')
            \<and> legalMoves ts (int n) (map int targets) = Some ts'
            \<and> (\<forall>j < m - i.
                  chooseTarget (int n) (int ((e # targets) ! j))
                      (if j = 0 then prev else int ((e # targets) ! (j - 1))) (random (i + j))
                    = Some (int (targets ! j)))
            \<and> length ret = m - i
            \<and> legalSwaps n (ts', e') ret = Some (ts, e)"
proof (induction d arbitrary: i ts e prev)
  case 0
  then have "\<not> i < m" by simp
  then have "shuffleLoop (int n) random m i (ts, int e, prev) = Inr (ts, int e, prev)"
    by (subst shuffleLoop.simps) simp
  moreover have "length ([]::nat list) = m - i" using 0 by simp
  moreover have "legalSwaps n (ts, e) [] = Some (ts, e)" by simp
  moreover have "legalMoves ts (int n) (map int []) = Some ts" by simp
  moreover have "\<forall>j < m - i.
                  chooseTarget (int n) (int ((e # []) ! j))
                      (if j = 0 then prev else int ((e # []) ! (j - 1))) (random (i + j))
                    = Some (int ([] ! j))" using 0 by simp
  ultimately show ?case using 0(1) by blast
next
  case (Suc d)
  then have lt: "i < m" and d: "d = m - Suc i" by simp_all
  have wf: "wellFormed n ts e" by (rule Suc.prems(1))
  have r: "0 \<le> random i" "random i < 1" using rnd by simp_all
  from shuffleStep_exchange [OF n r wf, of prev]
  obtain t where t: "t < n * n" and ne: "t \<noteq> e" and ma: "manhattanAdjacent n t e"
    and ct: "chooseTarget (int n) (int e) prev (random i) = Some (int t)"
    and st: "shuffleStep (int n) (random i) (ts, int e, prev) = Inr (exchange ts e t, int t, int e)"
    and am: "attemptMove ts (int n) (int t) = Inr (Some (exchange ts e t))"
    and wf1: "wellFormed n (exchange ts e t) t"
    by blast
  from Suc.IH [OF wf1 d, of "int e"]
  obtain ts' e' prev' targets ret where
    loop: "shuffleLoop (int n) random m (Suc i) (exchange ts e t, int t, int e) = Inr (ts', int e', prev')"
    and wf': "wellFormed n ts' e'"
    and lt': "length targets = m - Suc i"
    and ls: "legalSwaps n (exchange ts e t, t) targets = Some (ts', e')"
    and lm: "legalMoves (exchange ts e t) (int n) (map int targets) = Some ts'"
    and tr: "\<forall>j < m - Suc i.
                  chooseTarget (int n) (int ((t # targets) ! j))
                      (if j = 0 then int e else int ((t # targets) ! (j - 1))) (random (Suc i + j))
                    = Some (int (targets ! j))"
    and lr: "length ret = m - Suc i"
    and rs: "legalSwaps n (ts', e') ret = Some (exchange ts e t, t)"
    by blast
  have e: "e < n * n" using wf by (simp add: wellFormed_def)
  have c1: "shuffleLoop (int n) random m i (ts, int e, prev) = Inr (ts', int e', prev')"
    using lt st loop by (subst shuffleLoop.simps) simp
  have c2: "length (t # targets) = m - i" using lt' lt by simp
  have c3: "legalSwaps n (ts, e) (t # targets) = Some (ts', e')"
    using ls by (simp only: legalSwaps_step [OF wf t ne ma])
  have c4: "legalMoves ts (int n) (map int (t # targets)) = Some ts'"
    using am lm by simp
  have c5: "chooseTarget (int n) (int ((e # t # targets) ! j))
                (if j = 0 then prev else int ((e # t # targets) ! (j - 1))) (random (i + j))
              = Some (int ((t # targets) ! j))" if j: "j < m - i" for j
  proof (cases j)
    case 0
    then show ?thesis using ct by simp
  next
    case (Suc j')
    then have j': "j' < m - Suc i" using j by simp
    from tr j' have "chooseTarget (int n) (int ((t # targets) ! j'))
                      (if j' = 0 then int e else int ((t # targets) ! (j' - 1))) (random (Suc i + j'))
                    = Some (int (targets ! j'))" by blast
    then show ?thesis unfolding Suc by (cases j') simp_all
  qed
  have back1: "legalSwaps n (exchange ts e t, t) [e] = Some (ts, e)"
  proof -
    have "legalSwaps n (exchange ts e t, t) (e # []) = legalSwaps n (exchange (exchange ts e t) t e, e) []"
      using wf1 e ne [symmetric] ma by (intro legalSwaps_step) (simp_all add: manhattanAdjacent_sym)
    then show ?thesis by (simp add: exchange_back [OF wf t])
  qed
  have c6: "length (ret @ [e]) = m - i" using lr lt by simp
  have c7: "legalSwaps n (ts', e') (ret @ [e]) = Some (ts, e)"
    using rs back1 by (simp add: legalSwaps_append)
  have c5': "\<forall>j < m - i. chooseTarget (int n) (int ((e # t # targets) ! j))
                (if j = 0 then prev else int ((e # t # targets) ! (j - 1))) (random (i + j))
              = Some (int ((t # targets) ! j))"
    using c5 by blast
  show ?case
    using c1 wf' c2 c3 c4 c5' c6 c7 by blast
qed

lemma board4_shuffle1: "shuffleTiles board4 2 1 (\<lambda>j. 0) = Inr board4_moved"
proof -
  have ct: "chooseTarget 2 3 (- 1) 0 = Some 1" by (rule chooseTarget_2_3(2))
  have sw: "swapTiles board4 3 1 = Inr board4_moved"
    by (simp add: swapTiles_def arr_get_def board4_eq board4_moved_def eval_nat_numeral)
  have st: "shuffleStep 2 0 (board4, 3, - 1) = Inr (board4_moved, 1, 3)"
    by (simp add: shuffleStep_def ct sw)
  have l1: "shuffleLoop 2 (\<lambda>j. 0) (Suc 0) (Suc 0) (board4_moved, 1, 3) = Inr (board4_moved, 1, 3)"
    by (subst shuffleLoop.simps) simp
  have l0: "shuffleLoop 2 (\<lambda>j. 0) (Suc 0) 0 (board4, 3, - 1) = Inr (board4_moved, 1, 3)"
    by (subst shuffleLoop.simps) (simp add: st l1)
  show ?thesis
    by (simp add: shuffleTiles_def board4_findIndex l0)
qed

lemma board4_exchange: "exchange board4 3 1 = board4_moved"
proof -
  have n1: "board4 ! 1 = \<lparr>tileId = 1, currentPos = 1, correctPos = 1, imageUrl = ''B'', isEmpty = False\<rparr>"
    and n3: "board4 ! 3 = \<lparr>tileId = 3, currentPos = 3, correctPos = 3, imageUrl = ''D'', isEmpty = True\<rparr>"
    by (simp_all add: board4_eq eval_nat_numeral)
  show ?thesis
    unfolding exchange_def n1 n3 by (simp add: board4_eq board4_moved_def eval_nat_numeral)
qed

lemma board4_legalSwaps: "legalSwaps 2 (board4, 3) [1] = Some (board4_moved, 1)"
proof -
  have n1: "\<not> isEmpty (board4 ! 1)" and n3: "isEmpty (board4 ! 3)"
    by (simp_all add: board4_eq eval_nat_numeral)
  have ma: "manhattanAdjacent 2 1 3" by (simp add: manhattanAdjacent_def)
  show ?thesis
    using n1 n3 ma board4_exchange by (simp add: board4_len)
qed

text \<open>
  C2. For every well-formed board, every grid size \<open>n \<ge> 2\<close>, every step count \<open>k\<close> and every
  random source (each draw in \<open>[0, 1)\<close>), \<open>shuffleTiles\<close> returns a board, and this board is
  the result of exactly \<open>k\<close> legal single swaps from the input board: there are \<open>k\<close>
  targets, the \<open>j\<close>-th of them the position that the selection of the code picks in
  iteration \<open>j\<close> (with the empty cell where the previous swap left it, and the previous
  position of the empty cell as \<open>previousIdx\<close>), such that exchanging the empty cell with
  these targets in turn, each in bounds and Manhattan-adjacent to the empty cell, gives
  the returned board. The same targets are clicks that \<open>attemptMove\<close> accepts. From the
  returned board \<open>k\<close> legal single swaps lead back to the input board (so a board
  shuffled from the solved one is solvable). With step count 0 the returned board is the
  input board.
\<close>

theorem C2_shuffleTiles_legal:
  assumes "2 \<le> n"
    and "length b = n * n" and "e < n * n"
    and "\<forall>p < n * n. isEmpty (b ! p) \<longleftrightarrow> p = e"
    and "\<forall>p < n * n. currentPos (b ! p) = int p"
    and "\<forall>j. 0 \<le> random j \<and> random j < 1"
  shows "(\<exists>b' e' targets ret.
            shuffleTiles b (int n) k random = Inr b'
            \<and> length targets = k
            \<and> legalSwaps n (b, e) targets = Some (b', e')
            \<and> (\<forall>j < k.
                  chooseTarget (int n) (int ((e # targets) ! j))
                      (if j = 0 then - 1 else int ((e # targets) ! (j - 1))) (random j)
                    = Some (int (targets ! j)))
            \<and> legalMoves b (int n) (map int targets) = Some b'
            \<and> length ret = k
            \<and> legalSwaps n (b', e') ret = Some (b, e))
         \<and> shuffleTiles b (int n) 0 random = Inr b"
proof
  have wf: "wellFormed n b e" using assms(2-5) by (simp add: wellFormed_def)
  have fi: "findIndex isEmpty b = int e" by (rule wellFormed_findIndex [OF wf])
  from shuffleLoop_swaps [OF assms(1,6) wf refl, of k 0 "- 1"]
  obtain ts' e' prev' targets ret where
    loop: "shuffleLoop (int n) random k 0 (b, int e, - 1) = Inr (ts', int e', prev')"
    and lt: "length targets = k"
    and ls: "legalSwaps n (b, e) targets = Some (ts', e')"
    and lm: "legalMoves b (int n) (map int targets) = Some ts'"
    and tr: "\<forall>j < k.
                  chooseTarget (int n) (int ((e # targets) ! j))
                      (if j = 0 then - 1 else int ((e # targets) ! (j - 1))) (random j)
                    = Some (int (targets ! j))"
    and lr: "length ret = k"
    and rs: "legalSwaps n (ts', e') ret = Some (b, e)"
    by auto
  have "shuffleTiles b (int n) k random = Inr ts'"
    by (simp add: shuffleTiles_def fi loop)
  then show "\<exists>b' e' targets ret.
            shuffleTiles b (int n) k random = Inr b'
            \<and> length targets = k
            \<and> legalSwaps n (b, e) targets = Some (b', e')
            \<and> (\<forall>j < k.
                  chooseTarget (int n) (int ((e # targets) ! j))
                      (if j = 0 then - 1 else int ((e # targets) ! (j - 1))) (random j)
                    = Some (int (targets ! j)))
            \<and> legalMoves b (int n) (map int targets) = Some b'
            \<and> length ret = k
            \<and> legalSwaps n (b', e') ret = Some (b, e)"
    using lt ls tr lm lr rs by blast
  show "shuffleTiles b (int n) 0 random = Inr b"
    by (simp add: shuffleTiles_def shuffleLoop.simps [of _ _ 0])
qed

theorem C2_shuffleTiles_legal_witness:
  "((\<exists>b' e' targets ret.
      shuffleTiles board4 (int 2) 1 (\<lambda>j. 0) = Inr b'
      \<and> length targets = 1
      \<and> legalSwaps 2 (board4, 3) targets = Some (b', e')
      \<and> (\<forall>j < 1.
            chooseTarget (int 2) (int ((3 # targets) ! j))
                (if j = 0 then - 1 else int ((3 # targets) ! (j - 1))) ((\<lambda>j. 0) j)
              = Some (int (targets ! j)))
      \<and> legalMoves board4 (int 2) (map int targets) = Some b'
      \<and> length ret = 1
      \<and> legalSwaps 2 (b', e') ret = Some (board4, 3))
    \<and> shuffleTiles board4 (int 2) 0 (\<lambda>j. 0) = Inr board4)
   \<and> shuffleTiles board4 2 1 (\<lambda>j. 0) = Inr board4_moved
   \<and> legalSwaps 2 (board4, 3) [1] = Some (board4_moved, 1)"
proof -
  have n: "(2::nat) \<le> 2" and e: "(3::nat) < 2 * 2" by simp_all
  have rnd: "\<forall>j::nat. (0::real) \<le> (\<lambda>j. 0) j \<and> (\<lambda>j. 0) j < (1::real)" by simp
  note run = C2_shuffleTiles_legal [OF n board4_len e board4_one board4_cp rnd, where k = 1]
  show ?thesis
    using run board4_shuffle1 board4_legalSwaps by blast
qed

section \<open>Invariants of the boards the application holds\<close>

lemma shuffleStep_Inr:
  "shuffleStep g r (ts, e, prev) = Inr st' \<Longrightarrow>
     \<exists>t ts1. st' = (ts1, t, e) \<and> swapTiles ts e t = Inr ts1"
  by (auto simp: shuffleStep_def split: option.splits sum.splits)

lemma shuffleLoop_preserves:
  assumes step: "\<And>ts a c ts'. P ts \<Longrightarrow> swapTiles ts a c = Inr ts' \<Longrightarrow> P ts'"
  shows "P ts \<Longrightarrow> d = m - i \<Longrightarrow>
         shuffleLoop g random m i (ts, e, prev) = Inr (ts', e', prev') \<Longrightarrow> P ts'"
proof (induction d arbitrary: i ts e prev)
  case 0
  then have "\<not> i < m" by simp
  then have "shuffleLoop g random m i (ts, e, prev) = Inr (ts, e, prev)"
    by (subst shuffleLoop.simps) simp
  with 0 show ?case by simp
next
  case (Suc d)
  then have lt: "i < m" and d: "d = m - Suc i" by simp_all
  have unf: "shuffleLoop g random m i (ts, e, prev) =
      (case shuffleStep g (random i) (ts, e, prev) of
         Inl err \<Rightarrow> Inl err
       | Inr st' \<Rightarrow> shuffleLoop g random m (Suc i) st')"
    using lt by (subst shuffleLoop.simps) simp
  from Suc.prems(3) unf obtain st' where
    st: "shuffleStep g (random i) (ts, e, prev) = Inr st'"
    and loop: "shuffleLoop g random m (Suc i) st' = Inr (ts', e', prev')"
    by (auto split: sum.splits)
  from shuffleStep_Inr [OF st] obtain t ts1 where st': "st' = (ts1, t, e)"
    and sw: "swapTiles ts e t = Inr ts1" by blast
  have "P ts1" using Suc.prems(1) sw by (rule step)
  then show ?case using d loop unfolding st' by (rule Suc.IH)
qed

lemma shuffleTiles_preserves:
  assumes step: "\<And>ts a c ts'. P ts \<Longrightarrow> swapTiles ts a c = Inr ts' \<Longrightarrow> P ts'"
    and "P b" and "shuffleTiles b g k random = Inr b'"
  shows "P b'"
proof -
  from assms(3) obtain e' prev' where
    "shuffleLoop g random k 0 (b, findIndex isEmpty b, - 1) = Inr (b', e', prev')"
    by (auto simp: shuffleTiles_def split: sum.splits)
  with shuffleLoop_preserves [of P b k k 0 g random "findIndex isEmpty b" "- 1" b' e' prev'] step assms(2)
  show ?thesis by simp
qed

lemma handleTileClick_preserves:
  assumes step: "\<And>ts a c ts'. P ts \<Longrightarrow> swapTiles ts a c = Inr ts' \<Longrightarrow> P ts'"
    and "P (tiles_st s)" and "handleTileClick s index = Inr s'"
  shows "P (tiles_st s')"
proof -
  from assms(3) have "s' = s \<or> (\<exists>ts'. attemptMove (tiles_st s) (difficulty_st s) index = Inr (Some ts') \<and> tiles_st s' = ts')"
    by (auto simp: handleTileClick_def split: if_splits sum.splits option.splits)
  then show ?thesis
  proof
    assume "s' = s" with assms(2) show ?thesis by simp
  next
    assume "\<exists>ts'. attemptMove (tiles_st s) (difficulty_st s) index = Inr (Some ts') \<and> tiles_st s' = ts'"
    then have "swapTiles (tiles_st s) index (findIndex isEmpty (tiles_st s)) = Inr (tiles_st s')"
      by (auto simp: attemptMove_Some_iff)
    with assms(2) show ?thesis by (rule step)
  qed
qed

lemma produced_preserves:
  assumes prod: "produced n tileImages b"
    and base: "length tileImages = n * n \<Longrightarrow> P (generateSolvedState tileImages (int n))"
    and step: "\<And>ts a c ts'. P ts \<Longrightarrow> swapTiles ts a c = Inr ts' \<Longrightarrow> P ts'"
  shows "P b"
  using prod
proof (induction rule: produced.induct)
  case factory
  then show ?case by (rule base)
next
  case (shuffle b k random b')
  from step shuffle.IH shuffle.hyps(2) show ?case by (rule shuffleTiles_preserves)
next
  case (move b s index s')
  have "P (tiles_st s)" using move.IH move.hyps(2) by simp
  with step show ?case using move.hyps(4) by (rule handleTileClick_preserves)
qed

lemma board4_produced: "produced 2 [''A'', ''B'', ''C'', ''D''] board4_moved"
proof -
  let ?s = "\<lparr>difficulty_st = int 2, tiles_st = board4, gameState_st = PLAYING, moves_st = 0\<rparr>"
  have "produced 2 [''A'', ''B'', ''C'', ''D''] (generateSolvedState [''A'', ''B'', ''C'', ''D''] (int 2))"
    by (rule produced.factory) simp
  then have p: "produced 2 [''A'', ''B'', ''C'', ''D''] board4" by (simp add: board4_def)
  have solved: "\<not> isSolved board4_moved" by (simp add: isSolved_def board4_moved_def)
  have click: "handleTileClick ?s 1 =
      Inr (?s\<lparr>tiles_st := board4_moved, moves_st := 1, gameState_st := PLAYING\<rparr>)"
    using board4_click1 solved by (simp add: handleTileClick_PLAYING)
  have "produced 2 [''A'', ''B'', ''C'', ''D'']
          (tiles_st (?s\<lparr>tiles_st := board4_moved, moves_st := 1, gameState_st := PLAYING\<rparr>))"
    using p _ _ click by (rule produced.move) simp_all
  then show ?thesis by simp
qed

lemma swapTiles_currentPos:
  assumes "length ts = m \<and> (\<forall>p < m. currentPos (ts ! p) = int p)"
    and "swapTiles ts a c = Inr ts'"
  shows "length ts' = m \<and> (\<forall>p < m. currentPos (ts' ! p) = int p)"
proof -
  from assms(2) have a: "0 \<le> a" "a < int (length ts)" and c: "0 \<le> c" "c < int (length ts)"
    and ts': "ts' = ts[nat a := (ts ! nat c)\<lparr>currentPos := a\<rparr>, nat c := (ts ! nat a)\<lparr>currentPos := c\<rparr>]"
    by (simp_all add: swapTiles_Inr_iff)
  have len: "length ts' = m" using assms(1) ts' by simp
  have "currentPos (ts' ! p) = int p" if "p < m" for p
    using that assms(1) a c unfolding ts' by (auto simp: nth_list_update)
  with len show ?thesis by blast
qed

lemma generateSolvedState_currentPos:
  "\<forall>p < length imgs. currentPos (generateSolvedState imgs g ! p) = int p"
  by (simp add: generateSolvedState_nth)

lemma currentPos_list:
  assumes "length b = m" and "\<forall>p < m. currentPos (b ! p) = int p"
  shows "map currentPos b = map int [0..<m]"
  using assms by (intro nth_equalityI) simp_all

text \<open>
  C3. On every board produced by any sequence of \<open>generateSolvedState\<close>, \<open>shuffleTiles\<close>
  and moves (from an image list of length \<open>n\<^sup>2\<close>), the tile at index \<open>p\<close> has
  \<open>currentPos = p\<close>, for every \<open>p\<close> in \<open>[0, n\<^sup>2)\<close>; so the \<open>currentPos\<close> values of the board
  are \<open>0, \<dots>, n\<^sup>2 - 1\<close>, each exactly once.
\<close>

theorem C3_currentPos_is_index:
  assumes "produced n tileImages b"
  shows "length b = n * n
         \<and> (\<forall>p < n * n. currentPos (b ! p) = int p)
         \<and> map currentPos b = map int [0..<n * n]
         \<and> mset (map currentPos b) = mset (map int [0..<n * n])"
proof -
  have inv: "length b = n * n \<and> (\<forall>p < n * n. currentPos (b ! p) = int p)"
    using assms
  proof (rule produced_preserves)
    assume "length tileImages = n * n"
    then show "length (generateSolvedState tileImages (int n)) = n * n
        \<and> (\<forall>p < n * n. currentPos (generateSolvedState tileImages (int n) ! p) = int p)"
      using generateSolvedState_currentPos [of tileImages "int n"]
      by (simp add: generateSolvedState_length)
  next
    fix ts a c ts'
    assume "length ts = n * n \<and> (\<forall>p < n * n. currentPos (ts ! p) = int p)"
      and "swapTiles ts a c = Inr ts'"
    then show "length ts' = n * n \<and> (\<forall>p < n * n. currentPos (ts' ! p) = int p)"
      by (rule swapTiles_currentPos)
  qed
  then have l: "map currentPos b = map int [0..<n * n]"
    by (intro currentPos_list) simp_all
  then have "mset (map currentPos b) = mset (map int [0..<n * n])" by simp
  with inv l show ?thesis by blast
qed

theorem C3_currentPos_is_index_witness:
  "produced 2 [''A'', ''B'', ''C'', ''D''] board4_moved
   \<and> length board4_moved = 2 * 2
   \<and> map currentPos board4_moved = map int [0..<2 * 2]
   \<and> mset (map currentPos board4_moved) = mset (map int [0..<2 * 2])"
  using C3_currentPos_is_index [OF board4_produced] board4_produced by blast

lemma generateSolvedState_singleEmpty:
  assumes "0 < n" and "length imgs = n * n"
  shows "singleEmpty n (generateSolvedState imgs (int n))"
proof -
  have pos: "0 < n * n" using assms(1) by simp
  have last: "n * n - 1 < n * n" using pos by simp
  have eq: "int (n * n - 1) = int (n * n) - 1" using pos by (simp add: of_nat_diff)
  have iff: "(int p = int n * int n - 1) = (p = n * n - 1)" for p
  proof -
    have "int n * int n - 1 = int (n * n - 1)" using eq by simp
    then show ?thesis by simp
  qed
  have "\<forall>p < n * n. isEmpty (generateSolvedState imgs (int n) ! p) \<longleftrightarrow> p = n * n - 1"
    using assms(2) by (simp add: generateSolvedState_nth iff)
  moreover have "tileId (generateSolvedState imgs (int n) ! (n * n - 1)) = int (n * n) - 1"
    using assms(2) last by (simp only: generateSolvedState_nth eq) simp
  moreover have "correctPos (generateSolvedState imgs (int n) ! (n * n - 1)) = int (n * n) - 1"
    using assms(2) last by (simp only: generateSolvedState_nth eq) simp
  ultimately show ?thesis
    unfolding singleEmpty_def using last assms(2)
    by (intro conjI exI [of _ "n * n - 1"]) (simp_all add: generateSolvedState_length)
qed

lemma nat_less_length: "0 \<le> a \<Longrightarrow> a < int m \<Longrightarrow> nat a < m"
  by simp

lemma swapTiles_singleEmpty:
  assumes se: "singleEmpty n ts" and sw: "swapTiles ts a c = Inr ts'"
  shows "singleEmpty n ts'"
proof -
  from sw have a0: "0 \<le> a" and al: "a < int (length ts)" and c0: "0 \<le> c" and cl: "c < int (length ts)"
    and ts': "ts' = ts[nat a := (ts ! nat c)\<lparr>currentPos := a\<rparr>, nat c := (ts ! nat a)\<lparr>currentPos := c\<rparr>]"
    by (simp_all add: swapTiles_Inr_iff)
  from se obtain e where len: "length ts = n * n" and e: "e < n * n"
    and one: "\<forall>p < n * n. isEmpty (ts ! p) \<longleftrightarrow> p = e"
    and tid: "tileId (ts ! e) = int (n * n) - 1" and cor: "correctPos (ts ! e) = int (n * n) - 1"
    unfolding singleEmpty_def by blast
  define i where "i = nat a"
  define j where "j = nat c"
  have i: "i < n * n" unfolding i_def using nat_less_length [OF a0 al] by (simp only: len)
  have j: "j < n * n" unfolding j_def using nat_less_length [OF c0 cl] by (simp only: len)
  have ts'': "ts' = ts[i := (ts ! j)\<lparr>currentPos := a\<rparr>, j := (ts ! i)\<lparr>currentPos := c\<rparr>]"
    using ts' by (simp add: i_def j_def)
  define e' where "e' = (if e = i then j else if e = j then i else e)"
  have e': "e' < n * n" using e i j by (simp add: e'_def)
  have len': "length ts' = n * n" using len ts'' by simp
  have one': "isEmpty (ts' ! p) \<longleftrightarrow> p = e'" if "p < n * n" for p
    using that one i j e len unfolding ts'' e'_def
    by (auto simp: nth_list_update)
  have tid': "tileId (ts' ! e') = int (n * n) - 1"
    using tid i j e len unfolding ts'' e'_def by (auto simp: nth_list_update)
  have cor': "correctPos (ts' ! e') = int (n * n) - 1"
    using cor i j e len unfolding ts'' e'_def by (auto simp: nth_list_update)
  show ?thesis
    unfolding singleEmpty_def using len' e' one' tid' cor' by blast
qed

lemma swapTiles_tileKey:
  assumes "swapTiles ts a c = Inr ts'"
  shows "mset (map tileKey ts') = mset (map tileKey ts)"
proof -
  from assms have a0: "0 \<le> a" and al: "a < int (length ts)" and c0: "0 \<le> c" and cl: "c < int (length ts)"
    and ts': "ts' = ts[nat a := (ts ! nat c)\<lparr>currentPos := a\<rparr>, nat c := (ts ! nat a)\<lparr>currentPos := c\<rparr>]"
    by (simp_all add: swapTiles_Inr_iff)
  define i where "i = nat a"
  define j where "j = nat c"
  have i: "i < length ts" using a0 al by (simp add: i_def)
  have j: "j < length ts" using c0 cl by (simp add: j_def)
  let ?ks = "map tileKey ts"
  have "map tileKey ts' = ?ks[i := ?ks ! j, j := ?ks ! i]"
    using i j unfolding ts' i_def [symmetric] j_def [symmetric]
    by (simp add: map_update tileKey_def)
  moreover have "mset (?ks[i := ?ks ! j, j := ?ks ! i]) = mset ?ks"
    using i j by (intro mset_swap) simp_all
  ultimately show ?thesis by simp
qed

text \<open>
  C4. For a grid size \<open>n \<ge> 1\<close>, every board produced by \<open>generateSolvedState\<close>, and every
  board obtained from it by \<open>shuffleTiles\<close> and by clicks (accepted or not), has exactly one
  empty tile, and this is the tile with \<open>id = correctPos = n\<^sup>2 - 1\<close>; the tiles of the
  board, apart from their \<open>currentPos\<close>, are those of the solved board: no operation
  changes an \<open>isEmpty\<close> flag, or adds or removes a tile.
\<close>

theorem C4_single_empty_preserved:
  assumes "0 < n" and "produced n tileImages b"
  shows "length b = n * n
         \<and> (\<exists>e < n * n. (\<forall>p < n * n. isEmpty (b ! p) \<longleftrightarrow> p = e)
               \<and> tileId (b ! e) = int (n * n) - 1 \<and> correctPos (b ! e) = int (n * n) - 1)
         \<and> mset (map tileKey b) = mset (map tileKey (generateSolvedState tileImages (int n)))"
proof -
  have "singleEmpty n b"
    using assms(2)
  proof (rule produced_preserves)
    assume "length tileImages = n * n"
    with assms(1) show "singleEmpty n (generateSolvedState tileImages (int n))"
      by (rule generateSolvedState_singleEmpty)
  next
    fix ts a c ts'
    assume "singleEmpty n ts" and "swapTiles ts a c = Inr ts'"
    then show "singleEmpty n ts'" by (rule swapTiles_singleEmpty)
  qed
  moreover have "mset (map tileKey b) = mset (map tileKey (generateSolvedState tileImages (int n)))"
    using assms(2)
  proof (rule produced_preserves)
    show "mset (map tileKey (generateSolvedState tileImages (int n)))
          = mset (map tileKey (generateSolvedState tileImages (int n)))" by simp
  next
    fix ts a c ts'
    assume h: "mset (map tileKey ts) = mset (map tileKey (generateSolvedState tileImages (int n)))"
      and sw: "swapTiles ts a c = Inr ts'"
    show "mset (map tileKey ts') = mset (map tileKey (generateSolvedState tileImages (int n)))"
      using swapTiles_tileKey [OF sw] h by (rule trans)
  qed
  ultimately show ?thesis unfolding singleEmpty_def by blast
qed

theorem C4_single_empty_preserved_witness:
  "(0::nat) < 2 \<and> produced 2 [''A'', ''B'', ''C'', ''D''] board4_moved
   \<and> (\<exists>e < 2 * 2. (\<forall>p < 2 * 2. isEmpty (board4_moved ! p) \<longleftrightarrow> p = e)
         \<and> tileId (board4_moved ! e) = int (2 * 2) - 1
         \<and> correctPos (board4_moved ! e) = int (2 * 2) - 1)
   \<and> mset (map tileKey board4_moved)
       = mset (map tileKey (generateSolvedState [''A'', ''B'', ''C'', ''D''] (int 2)))"
proof -
  have n: "(0::nat) < 2" by simp
  show ?thesis
    using C4_single_empty_preserved [OF n board4_produced] board4_produced n by blast
qed

section \<open>shuffleTiles: the anti-backtrack filter\<close>

lemma int_less_square: "int x < int n * int n \<longleftrightarrow> x < n * n"
  by (simp flip: of_nat_mult)

lemma set_inBoundsNeighbours:
  "set (inBoundsNeighbours n e) = {p. 0 \<le> p \<and> p < int n * int n \<and> isAdjacent (int n) p (int e)}"
proof -
  have "set (map int [0..<n * n]) = {p. 0 \<le> p \<and> p < int n * int n}"
  proof (intro set_eqI iffI)
    fix p assume "p \<in> set (map int [0..<n * n])"
    then obtain x where "x < n * n" and "p = int x" by auto
    then show "p \<in> {p. 0 \<le> p \<and> p < int n * int n}" by (simp add: int_less_square)
  next
    fix p assume "p \<in> {p. 0 \<le> p \<and> p < int n * int n}"
    then have p0: "0 \<le> p" and "int (nat p) < int n * int n" by simp_all
    then have "nat p < n * n" by (simp only: int_less_square)
    then have "nat p \<in> set [0..<n * n]" by simp
    moreover have "p = int (nat p)" using p0 by simp
    ultimately show "p \<in> set (map int [0..<n * n])" by (metis image_eqI set_map)
  qed
  then show ?thesis unfolding inBoundsNeighbours_def by auto
qed

lemma validMoves_neighbours:
  assumes "0 < n" and "e < n * n"
  shows "set (validMoves (int n) (int e)) = set (inBoundsNeighbours n e)"
proof -
  have n0: "0 < int n" using assms(1) by simp
  have e0: "0 \<le> int e" by simp
  have en: "int e < int n * int n" using assms(2) by (simp only: int_less_square)
  have "p \<in> set (validMoves (int n) (int e)) \<longleftrightarrow> p \<in> set (inBoundsNeighbours n e)" for p
    unfolding validMoves_mem [OF n0 e0 en] set_inBoundsNeighbours by simp
  then show ?thesis by blast
qed











text \<open>
  C10. With \<open>gridSize \<ge> 2\<close> every cell has at least two in-bounds orthogonal neighbours,
  the candidate list has at least two entries, and the filtered list is never empty: the
  selection always takes the first branch and reads the filtered list at an index inside
  it.
\<close>

theorem C10_fallback_unreachable:
  assumes "2 \<le> n" and "e < n * n" and "0 \<le> r" and "r < 1"
  shows "2 \<le> card (set (inBoundsNeighbours n e))
         \<and> 2 \<le> length (validMoves (int n) (int e))
         \<and> filteredMoves (int n) (int e) prev \<noteq> []
         \<and> (\<exists>k < length (filteredMoves (int n) (int e) prev).
               randomIndex r (length (filteredMoves (int n) (int e) prev)) = int k
               \<and> chooseTarget (int n) (int e) prev r
                   = Some (filteredMoves (int n) (int e) prev ! k))"
proof -
  have n0: "0 < n" and n2: "2 \<le> int n" using assms(1) by simp_all
  from validMoves_two [OF n2, of "int e"]
  have len: "2 \<le> length (validMoves (int n) (int e))"
    and dist: "distinct (validMoves (int n) (int e))" by simp_all
  have "card (set (validMoves (int n) (int e))) = length (validMoves (int n) (int e))"
    using dist by (rule distinct_card)
  then have card: "2 \<le> card (set (inBoundsNeighbours n e))"
    using len by (simp add: validMoves_neighbours [OF n0 assms(2)])
  have ne: "filteredMoves (int n) (int e) prev \<noteq> []"
    by (rule filteredMoves_nonempty [OF n2])
  show ?thesis
    using card len ne chooseTarget_filtered [OF n2 assms(3,4), of "int e" prev] by blast
qed

theorem C10_fallback_unreachable_witness:
  "(2 \<le> card (set (inBoundsNeighbours 2 3))
    \<and> 2 \<le> length (validMoves (int 2) (int 3))
    \<and> filteredMoves (int 2) (int 3) 1 \<noteq> []
    \<and> (\<exists>k < length (filteredMoves (int 2) (int 3) 1).
          randomIndex 0 (length (filteredMoves (int 2) (int 3) 1)) = int k
          \<and> chooseTarget (int 2) (int 3) 1 0 = Some (filteredMoves (int 2) (int 3) 1 ! k)))
   \<and> filteredMoves (int 2) (int 3) 1 = [2]"
proof -
  have n: "(2::nat) \<le> 2" and e: "(3::nat) < 2 * 2" and r: "(0::real) \<le> 0" "(0::real) < 1"
    by simp_all
  have "filteredMoves (int 2) (int 3) 1 = [2]"
    by (simp add: filteredMoves_def validMoves_2_3)
  then show ?thesis
    using C10_fallback_unreachable [OF n e r, of 1] by blast
qed

section \<open>sliceImage\<close>

lemma grid_length:
  "length (concat (map (\<lambda>row. map (f row) [0..<g]) [0..<m])) = m * g"
  by (induction m) simp_all

lemma grid_nth:
  "row < m \<Longrightarrow> col < g \<Longrightarrow>
   concat (map (\<lambda>row. map (f row) [0..<g]) [0..<m]) ! (row * g + col) = f row col"
proof (induction m)
  case 0
  then show ?case by simp
next
  case (Suc m)
  let ?pre = "concat (map (\<lambda>row. map (f row) [0..<g]) [0..<m])"
  have split: "concat (map (\<lambda>row. map (f row) [0..<g]) [0..<Suc m]) = ?pre @ map (f m) [0..<g]"
    by simp
  have len: "length ?pre = m * g" by (rule grid_length)
  show ?case
  proof (cases "row < m")
    case True
    then have "Suc row \<le> m" by simp
    then have "Suc row * g \<le> m * g" by (rule mult_le_mono1)
    then have "row * g + col < m * g" using Suc.prems(2) by simp
    then show ?thesis
      unfolding split using Suc.IH [OF True Suc.prems(2)] by (simp add: nth_append len)
  next
    case False
    then have "row = m" using Suc.prems(1) by simp
    then show ?thesis
      unfolding split using Suc.prems(2) by (simp add: nth_append len)
  qed
qed

text \<open>
  C8. When the image loads and a 2d context is available, \<open>sliceImage\<close> returns exactly
  \<open>gridSize\<^sup>2\<close> tile images in row-major order; with \<open>size = min(width, height)\<close> and
  \<open>tileSize = floor(size / gridSize)\<close>, the tile of row \<open>row\<close> and column \<open>col\<close> is drawn
  from the square of side \<open>tileSize\<close> at
  \<open>((width - size) / 2 + col * tileSize, (height - size) / 2 + row * tileSize)\<close>
  onto a tile of side \<open>min(512, tileSize)\<close>. For a 900 \<times> 600 source and \<open>gridSize = 3\<close>
  this gives the offsets \<open>(150, 0)\<close>, \<open>tileSize = 200\<close> and 9 tiles of 200 \<times> 200.
\<close>

theorem C8_sliceImage:
  assumes "loadImage imageSrc = Inr img"
  shows "\<exists>pieces.
           sliceImage loadImage True imageSrc gridSize = Inr pieces
           \<and> length pieces = gridSize * gridSize
           \<and> (\<forall>row < gridSize. \<forall>col < gridSize.
                 pieces ! (row * gridSize + col) =
                   \<lparr>sx = (real (width img) - real (min (width img) (height img))) / 2
                          + real col * real (min (width img) (height img) div gridSize),
                    sy = (real (height img) - real (min (width img) (height img))) / 2
                          + real row * real (min (width img) (height img) div gridSize),
                    sWidth = min (width img) (height img) div gridSize,
                    sHeight = min (width img) (height img) div gridSize,
                    dWidth = min 512 (min (width img) (height img) div gridSize),
                    dHeight = min 512 (min (width img) (height img) div gridSize)\<rparr>)"
proof -
  define size' where "size' = min (width img) (height img)"
  define f where "f = (\<lambda>row col.
      \<lparr>sx = (real (width img) - real size') / 2 + real col * real (size' div gridSize),
       sy = (real (height img) - real size') / 2 + real row * real (size' div gridSize),
       sWidth = size' div gridSize, sHeight = size' div gridSize,
       dWidth = min 512 (size' div gridSize), dHeight = min 512 (size' div gridSize)\<rparr>)"
  define pieces where "pieces = concat (map (\<lambda>row. map (f row) [0..<gridSize]) [0..<gridSize])"
  have res: "sliceImage loadImage True imageSrc gridSize = Inr pieces"
    unfolding sliceImage_def pieces_def f_def size'_def using assms by (simp add: Let_def)
  have len: "length pieces = gridSize * gridSize"
    unfolding pieces_def by (rule grid_length)
  have nth: "pieces ! (row * gridSize + col) = f row col"
    if "row < gridSize" and "col < gridSize" for row col
    unfolding pieces_def using that by (rule grid_nth)
  show ?thesis
    using res len nth unfolding f_def size'_def by blast
qed

theorem C8_sliceImage_witness:
  "\<exists>pieces.
     sliceImage (\<lambda>src. Inr \<lparr>width = 900, height = 600\<rparr>) True ''photo'' 3 = Inr pieces
     \<and> length pieces = 3 * 3
     \<and> (\<forall>row < 3. \<forall>col < 3.
           pieces ! (row * 3 + col) =
             \<lparr>sx = 150 + real col * 200, sy = real row * 200,
              sWidth = 200, sHeight = 200, dWidth = 200, dHeight = 200\<rparr>)"
proof -
  have ld: "(\<lambda>src::string. (Inr \<lparr>width = 900, height = 600\<rparr> :: error + image)) ''photo''
              = Inr \<lparr>width = 900, height = 600\<rparr>"
    by simp
  show ?thesis
    using C8_sliceImage [OF ld, where gridSize = 3] by simp
qed

end
